theory Spec2Isabelle
  imports Main "HOL-Library.Word" "HOL-Library.Multiset" "HOL-Library.Monad_Syntax"
begin

section \<open>Data model (types.ts)\<close>

text \<open>
  The interfaces of the repository become records. The field \<open>id\<close> occurs in three
  interfaces, so it carries a prefix here (\<open>p_id\<close>, \<open>m_id\<close>, \<open>t_id\<close>); \<open>name\<close>
  likewise. A TypeScript \<open>number\<close> that holds an identifier or a score is an \<open>int\<close>;
  \<open>number | null\<close> and an optional field are \<open>option\<close>.
\<close>

record Player =
  p_id :: int
  p_name :: string

record Team =
  player1 :: Player
  player2 :: Player

record Match =
  m_id :: string
  team1 :: Team
  team2 :: Team
  score1 :: "int option"
  score2 :: "int option"
  completed :: bool

record StandingsEntry =
  playerId :: int
  playerName :: string
  wins :: int
  losses :: int
  pointsFor :: int
  pointsAgainst :: int
  pointDifferential :: int
  matchesPlayed :: int

record Tournament =
  t_id :: string
  t_name :: string
  createdAt :: string
  players :: "Player list"
  matches :: "Match list"
  location :: "string option"
  time :: "string option"

section \<open>Score update and match deletion (App.tsx, handleUpdateScore, handleDeleteMatch)\<close>

text \<open>
  Both handlers pass a function to \<open>setTournaments\<close>; the model is that function, from
  the previous collection to the next one. \<open>activeTournamentId\<close> is \<open>string | null\<close>.
  \<open>handleDeleteMatch\<close> first asks \<open>window.confirm\<close>; its answer is the argument
  \<open>confirm\<close>.
\<close>

definition set_score :: "string \<Rightarrow> int \<Rightarrow> int \<Rightarrow> Match \<Rightarrow> Match" where
  "set_score matchId s1 s2 m =
     (if m_id m = matchId then m\<lparr>score1 := Some s1, score2 := Some s2, completed := True\<rparr> else m)"

definition handleUpdateScore ::
  "string option \<Rightarrow> string \<Rightarrow> int \<Rightarrow> int \<Rightarrow> Tournament list \<Rightarrow> Tournament list" where
  "handleUpdateScore activeTournamentId matchId s1 s2 prev =
     map (\<lambda>t. if Some (t_id t) = activeTournamentId
               then t\<lparr>matches := map (set_score matchId s1 s2) (matches t)\<rparr>
               else t) prev"

definition handleDeleteMatch ::
  "bool \<Rightarrow> string option \<Rightarrow> string \<Rightarrow> Tournament list \<Rightarrow> Tournament list" where
  "handleDeleteMatch confirm activeTournamentId matchId prev =
     (if confirm
      then map (\<lambda>t. if Some (t_id t) = activeTournamentId
                     then t\<lparr>matches := filter (\<lambda>m. m_id m \<noteq> matchId) (matches t)\<rparr>
                     else t) prev
      else prev)"

text \<open>A match is half scored when exactly one of its two scores is set.\<close>

definition half_scored :: "Match \<Rightarrow> bool" where
  "half_scored m = ((score1 m = None) \<noteq> (score2 m = None))"

section \<open>Number to string conversion (template literals)\<close>

text \<open>
  A template literal \<open>`${x}`\<close> applies \<open>ToString\<close> to the number \<open>x\<close>. For an integer
  this is its decimal numeral, with a leading minus sign when negative.
\<close>

definition digit_char :: "nat \<Rightarrow> char" where
  "digit_char d = char_of (48 + d)"

function show_nat :: "nat \<Rightarrow> string" where
  "show_nat n = (if n < 10 then [digit_char n] else show_nat (n div 10) @ [digit_char (n mod 10)])"
  by pat_completeness auto
termination
  by (relation "measure id") auto

definition show_int :: "int \<Rightarrow> string" where
  "show_int i = (if i < 0 then CHR ''-'' # show_nat (nat (- i)) else show_nat (nat i))"

section \<open>Match generation (App.tsx, handleCreateTournament)\<close>

text \<open>
  The four nested \<open>for\<close> loops over \<open>i < j < k < l < players.length\<close> push one match
  per quadruple, in loop order. Each loop is a comprehension over its index range.
\<close>

definition match_id :: "Player \<Rightarrow> Player \<Rightarrow> Player \<Rightarrow> Player \<Rightarrow> string" where
  "match_id p1 p2 p3 p4 =
     show_int (p_id p1) @ ''-'' @ show_int (p_id p2) @ ''-'' @ show_int (p_id p3) @ ''-'' @
     show_int (p_id p4)"

definition new_match :: "Player \<Rightarrow> Player \<Rightarrow> Player \<Rightarrow> Player \<Rightarrow> Match" where
  "new_match p1 p2 p3 p4 =
     \<lparr>m_id = match_id p1 p2 p3 p4,
      team1 = \<lparr>player1 = p1, player2 = p2\<rparr>,
      team2 = \<lparr>player1 = p3, player2 = p4\<rparr>,
      score1 = None, score2 = None, completed = False\<rparr>"

definition quadruples :: "nat \<Rightarrow> (nat \<times> nat \<times> nat \<times> nat) list" where
  "quadruples n =
     [(i, j, k, l). i \<leftarrow> [0..<n], j \<leftarrow> [Suc i..<n], k \<leftarrow> [Suc j..<n], l \<leftarrow> [Suc k..<n]]"

definition generate_matches :: "Player list \<Rightarrow> Match list" where
  "generate_matches ps =
     map (\<lambda>(i, j, k, l). new_match (ps ! i) (ps ! j) (ps ! k) (ps ! l)) (quadruples (length ps))"

text \<open>
  The Fisher-Yates loop \<open>for (i = matches.length - 1; i > 0; i--)\<close> swaps position \<open>i\<close>
  with position \<open>j = Math.floor(Math.random() * (i + 1))\<close>. \<open>Math.random()\<close> lies in
  \<open>[0, 1)\<close>, so \<open>j\<close> lies in \<open>{0..i}\<close>. The random source is the argument \<open>rnd\<close>:
  \<open>rnd i\<close> is the number drawn in the iteration for \<open>i\<close>, reduced modulo \<open>i + 1\<close> so
  that every \<open>rnd\<close> stays in that range.
\<close>

fun shuffle_from :: "(nat \<Rightarrow> nat) \<Rightarrow> nat \<Rightarrow> 'a list \<Rightarrow> 'a list" where
  "shuffle_from rnd 0 xs = xs"
| "shuffle_from rnd (Suc i) xs =
     (let j = rnd (Suc i) mod (Suc i + 1)
      in shuffle_from rnd i (xs[Suc i := xs ! j, j := xs ! Suc i]))"

definition shuffle :: "(nat \<Rightarrow> nat) \<Rightarrow> 'a list \<Rightarrow> 'a list" where
  "shuffle rnd xs = shuffle_from rnd (length xs - 1) xs"

definition generate :: "(nat \<Rightarrow> nat) \<Rightarrow> Player list \<Rightarrow> Match list" where
  "generate rnd ps = shuffle rnd (generate_matches ps)"

text \<open>The four participants of a match, in team order.\<close>

definition participants :: "Match \<Rightarrow> Player list" where
  "participants m =
     [player1 (team1 m), player2 (team1 m), player1 (team2 m), player2 (team2 m)]"

section \<open>Numbers\<close>

text \<open>
  Scores and statistics are JavaScript numbers, that is IEEE 754 doubles, and \<open>+=\<close> is
  their addition: the exact sum rounded to the nearest double, a tie going to the one with
  an even significand. The fields hold integers here. An integer with at most 53 significant
  bits is a double; \<open>double_round\<close> rounds any other one to 53 significant bits, so
  \<open>js_add\<close> is the exact sum as long as that has magnitude at most \<open>2 ^ 53\<close>
  (\<open>safe_integer\<close>) and loses the low bits beyond it. A result beyond the largest
  finite double is \<open>Infinity\<close> in the program, which the fields here cannot hold; the
  properties below that give the value of a sum are stated for safe integers only. The subtraction
  \<open>js_sub\<close> rounds in the same way. The comparator of the sort uses its differences for
  their sign only, which rounding keeps.
\<close>

function bit_length :: "int \<Rightarrow> nat" where
  "bit_length n = (if n \<le> 0 then 0 else Suc (bit_length (n div 2)))"
  by pat_completeness auto
termination by (relation "measure nat") auto

definition double_round :: "int \<Rightarrow> int" where
  "double_round x =
     (let n = \<bar>x\<bar> in
      if bit_length n \<le> 53 then x
      else
        let k = bit_length n - 53;
            q = n div 2 ^ k;
            r = n mod 2 ^ k;
            h = 2 ^ (k - 1);
            q' = (if r > h \<or> (r = h \<and> odd q) then q + 1 else q)
        in sgn x * (q' * 2 ^ k))"

definition js_add :: "int \<Rightarrow> int \<Rightarrow> int" where
  "js_add a b = double_round (a + b)"


definition safe_integer :: "int \<Rightarrow> bool" where
  "safe_integer x = (\<bar>x\<bar> \<le> 9007199254740992)"

section \<open>Tournament creation and the score form (App.tsx, handleCreateTournament, MatchItem.handleSave)\<close>

text \<open>
  The state of \<open>App\<close> that the operations on tournaments read and write: the collection
  and the active identifier (\<open>string | null\<close>). The setup form (players, name, location,
  time), \<open>Date.now()\<close>, \<open>new Date().toISOString()\<close> and the random source are arguments.
  \<open>trim\<close> removes white space at both ends; strings hold code units below 256 and the
  white space among them is tab, line feed, vertical tab, form feed, carriage return,
  space and no-break space.
\<close>

record AppState =
  tournaments :: "Tournament list"
  activeTournamentId :: "string option"

definition is_space :: "char \<Rightarrow> bool" where
  "is_space c =
     (c \<in> set [CHR 0x09, CHR 0x0A, CHR 0x0B, CHR 0x0C, CHR 0x0D, CHR '' '', CHR 0xA0])"

definition trim :: "string \<Rightarrow> string" where
  "trim s = rev (dropWhile is_space (rev (dropWhile is_space s)))"

definition handleCreateTournament ::
  "int \<Rightarrow> string \<Rightarrow> (nat \<Rightarrow> nat) \<Rightarrow> Player list \<Rightarrow> string \<Rightarrow> string \<Rightarrow> string \<Rightarrow>
   AppState \<Rightarrow> AppState" where
  "handleCreateTournament now isoTime rnd ps tournamentName tournamentLocation tournamentTime st =
     (if length ps < 4 then st
      else if trim tournamentName = [] then st
      else
        let newTournament =
              \<lparr>t_id = ''tourn_'' @ show_int now,
               t_name = trim tournamentName,
               createdAt = isoTime,
               players = ps,
               matches = generate rnd ps,
               location = Some (trim tournamentLocation),
               time = Some tournamentTime\<rparr>
        in \<lparr>tournaments = tournaments st @ [newTournament],
            activeTournamentId = Some (t_id newTournament)\<rparr>)"

text \<open>
  \<open>parseInt(s, 10)\<close> skips leading white space, reads an optional sign and then the longest
  run of decimal digits; without a digit the result is \<open>NaN\<close>, which is \<open>None\<close> here.
  The result is the number nearest to the integer read (beyond 20 digits an implementation
  may round the digits first).
\<close>

definition is_digit :: "char \<Rightarrow> bool" where
  "is_digit c = (48 \<le> (of_char c :: nat) \<and> (of_char c :: nat) \<le> 57)"

definition digit_val :: "char \<Rightarrow> nat" where
  "digit_val c = of_char c - 48"

definition nat_of_digits :: "string \<Rightarrow> nat" where
  "nat_of_digits ds = foldl (\<lambda>acc c. 10 * acc + digit_val c) 0 ds"

definition parseInt10 :: "string \<Rightarrow> int option" where
  "parseInt10 s =
     (let s1 = dropWhile is_space s;
          neg = (s1 \<noteq> [] \<and> hd s1 = CHR ''-'');
          s2 = (if s1 \<noteq> [] \<and> (hd s1 = CHR ''-'' \<or> hd s1 = CHR ''+'') then tl s1 else s1);
          ds = takeWhile is_digit s2
      in if ds = [] then None
         else Some (double_round (if neg then - int (nat_of_digits ds) else int (nat_of_digits ds))))"

text \<open>
  \<open>handleSave\<close> of the match form: \<open>score1\<close> and \<open>score2\<close> are the texts of the two
  input fields, \<open>m\<close> the match shown. \<open>onUpdateScore\<close> is \<open>handleUpdateScore\<close>.
\<close>

definition handleSave :: "string \<Rightarrow> string \<Rightarrow> Match \<Rightarrow> AppState \<Rightarrow> AppState" where
  "handleSave score1_text score2_text m st =
     (case (parseInt10 score1_text, parseInt10 score2_text) of
        (Some s1, Some s2) \<Rightarrow>
          st\<lparr>tournaments := handleUpdateScore (activeTournamentId st) (m_id m) s1 s2 (tournaments st)\<rparr>
      | _ \<Rightarrow> st)"

definition handleDeleteTournament :: "bool \<Rightarrow> string \<Rightarrow> AppState \<Rightarrow> AppState" where
  "handleDeleteTournament confirm tid st =
     (if confirm then st\<lparr>tournaments := filter (\<lambda>t. t_id t \<noteq> tid) (tournaments st)\<rparr> else st)"

text \<open>
  The states the application reaches from the empty collection by creating tournaments,
  saving scores, deleting matches and tournaments, opening a tournament
  (\<open>handleLoadTournament\<close>) and going back to the list (\<open>handleBackToList\<close>).
\<close>

inductive reachable :: "AppState \<Rightarrow> bool" where
  r_init: "reachable \<lparr>tournaments = [], activeTournamentId = None\<rparr>"
| r_create: "reachable st \<Longrightarrow> reachable (handleCreateTournament now isoTime rnd ps n l t st)"
| r_save: "reachable st \<Longrightarrow> reachable (handleSave s1 s2 m st)"
| r_delete_match: "reachable st \<Longrightarrow>
     reachable (st\<lparr>tournaments := handleDeleteMatch c (activeTournamentId st) mid (tournaments st)\<rparr>)"
| r_delete_tournament: "reachable st \<Longrightarrow> reachable (handleDeleteTournament c tid st)"
| r_load: "reachable st \<Longrightarrow> reachable (st\<lparr>activeTournamentId := Some tid\<rparr>)"
| r_back: "reachable st \<Longrightarrow> reachable (st\<lparr>activeTournamentId := None\<rparr>)"

section \<open>Standings (App.tsx, calculateStandings)\<close>

text \<open>
  \<open>stats\<close> is a JavaScript object keyed by player identifier. The model is an association
  list in insertion order: \<open>obj_put\<close> is the assignment \<open>acc[k] = v\<close> (it replaces the value
  of an existing key in place and appends a new key), \<open>obj_modify\<close> is an update through a
  reference \<open>s = stats[k]\<close> guarded by \<open>if (s)\<close> (it does nothing for an absent key), and
  \<open>map_of\<close> is the lookup. The four references \<open>t1p1Stats\<close> ... \<open>t2p2Stats\<close> point into
  \<open>stats\<close>, so two of them alias exactly when their identifiers are equal; updating the
  entry of the key one after the other gives the same result.
\<close>

type_synonym stats = "(int \<times> StandingsEntry) list"

fun obj_put :: "'k \<Rightarrow> 'v \<Rightarrow> ('k \<times> 'v) list \<Rightarrow> ('k \<times> 'v) list" where
  "obj_put k v [] = [(k, v)]"
| "obj_put k v ((k', v') # al) = (if k' = k then (k, v) # al else (k', v') # obj_put k v al)"

fun obj_modify :: "int \<Rightarrow> ('v \<Rightarrow> 'v) \<Rightarrow> (int \<times> 'v) list \<Rightarrow> (int \<times> 'v) list" where
  "obj_modify k f [] = []"
| "obj_modify k f ((k', v') # al) = (if k' = k then (k', f v') # al else (k', v') # obj_modify k f al)"

definition zero_entry :: "Player \<Rightarrow> StandingsEntry" where
  "zero_entry player =
     \<lparr>playerId = p_id player, playerName = p_name player, wins = 0, losses = 0,
      pointsFor = 0, pointsAgainst = 0, pointDifferential = 0, matchesPlayed = 0\<rparr>"

definition init_stats :: "Player list \<Rightarrow> stats" where
  "init_stats ps = foldl (\<lambda>acc player. obj_put (p_id player) (zero_entry player) acc) [] ps"

definition score_or_zero :: "int option \<Rightarrow> int" where
  "score_or_zero s = (case s of None \<Rightarrow> 0 | Some x \<Rightarrow> x)"

definition played :: "StandingsEntry \<Rightarrow> StandingsEntry" where
  "played s = s\<lparr>matchesPlayed := js_add (matchesPlayed s) 1\<rparr>"

definition add_points :: "int \<Rightarrow> int \<Rightarrow> StandingsEntry \<Rightarrow> StandingsEntry" where
  "add_points for against s =
     s\<lparr>pointsFor := js_add (pointsFor s) for, pointsAgainst := js_add (pointsAgainst s) against\<rparr>"

definition won :: "StandingsEntry \<Rightarrow> StandingsEntry" where
  "won s = s\<lparr>wins := js_add (wins s) 1\<rparr>"

definition lost :: "StandingsEntry \<Rightarrow> StandingsEntry" where
  "lost s = s\<lparr>losses := js_add (losses s) 1\<rparr>"

text \<open>The body of \<open>forEach\<close> for one completed match.\<close>

definition apply_match :: "Match \<Rightarrow> stats \<Rightarrow> stats" where
  "apply_match m st =
     (let s1 = score_or_zero (score1 m);
          s2 = score_or_zero (score2 m);
          a = p_id (player1 (team1 m));
          b = p_id (player2 (team1 m));
          c = p_id (player1 (team2 m));
          d = p_id (player2 (team2 m));
          present = (\<lambda>k. map_of st k \<noteq> None);
          st1 = obj_modify d played (obj_modify c played (obj_modify b played (obj_modify a played st)));
          st2 = (if present a \<and> present b
                 then obj_modify b (add_points s1 s2) (obj_modify a (add_points s1 s2) st1)
                 else st1);
          st3 = (if present c \<and> present d
                 then obj_modify d (add_points s2 s1) (obj_modify c (add_points s2 s1) st2)
                 else st2)
      in if s1 > s2
         then obj_modify d lost (obj_modify c lost (obj_modify b won (obj_modify a won st3)))
         else if s2 > s1
         then obj_modify b lost (obj_modify a lost (obj_modify d won (obj_modify c won st3)))
         else st3)"

text \<open>The object after \<open>reduce\<close> over the players and \<open>forEach\<close> over the completed matches.\<close>

definition final_stats :: "Player list \<Rightarrow> Match list \<Rightarrow> stats" where
  "final_stats ps ms = fold apply_match (filter completed ms) (init_stats ps)"











section \<open>URL-safe base64 (App.tsx, uint8ArrayToBase64Url, base64UrlToUint8Array)\<close>

text \<open>
  A \<open>Uint8Array\<close> is a list of 8-bit words. A binary string is a \<open>string\<close>, whose
  characters are the code units 0 to 255, so \<open>String.fromCharCode\<close> of a byte is \<open>char_of\<close>
  and \<open>charCodeAt\<close> is \<open>of_char\<close>. \<open>window.btoa\<close> and \<open>window.atob\<close> are the browser's
  functions; they are modelled after their specification (RFC 4648 encoding with padding,
  and the forgiving-base64 decode of the HTML standard). \<open>btoa\<close> throws only for a code
  unit above 255, which a \<open>string\<close> cannot hold. \<open>atob\<close> throws on malformed input: the
  result is \<open>None\<close>.
\<close>

definition b64_alphabet :: string where
  "b64_alphabet = ''ABCDEFGHIJKLMNOPQRSTUVWXYZabcdefghijklmnopqrstuvwxyz0123456789+/''"

definition b64_char :: "nat \<Rightarrow> char" where
  "b64_char n = b64_alphabet ! n"

definition b64_index :: "char \<Rightarrow> nat option" where
  "b64_index c = map_of (zip b64_alphabet [0..<64]) c"

fun btoa_groups :: "nat list \<Rightarrow> string" where
  "btoa_groups (a # b # c # rest) =
     [b64_char (a div 4), b64_char ((a mod 4) * 16 + b div 16),
      b64_char ((b mod 16) * 4 + c div 64), b64_char (c mod 64)] @ btoa_groups rest"
| "btoa_groups [a, b] =
     [b64_char (a div 4), b64_char ((a mod 4) * 16 + b div 16), b64_char ((b mod 16) * 4),
      CHR ''='']"
| "btoa_groups [a] = [b64_char (a div 4), b64_char ((a mod 4) * 16), CHR ''='', CHR ''='']"
| "btoa_groups [] = []"

definition btoa :: "string \<Rightarrow> string" where
  "btoa binary = btoa_groups (map of_char binary)"

definition is_ascii_whitespace :: "char \<Rightarrow> bool" where
  "is_ascii_whitespace c = (c \<in> set [CHR 0x09, CHR 0x0A, CHR 0x0C, CHR 0x0D, CHR '' ''])"

definition strip_padding :: "string \<Rightarrow> string" where
  "strip_padding d =
     (if d \<noteq> [] \<and> last d = CHR ''=''
      then (if butlast d \<noteq> [] \<and> last (butlast d) = CHR ''='' then butlast (butlast d)
            else butlast d)
      else d)"

fun atob_groups :: "nat list \<Rightarrow> nat list" where
  "atob_groups (s1 # s2 # s3 # s4 # rest) =
     [s1 * 4 + s2 div 16, (s2 mod 16) * 16 + s3 div 4, (s3 mod 4) * 64 + s4] @ atob_groups rest"
| "atob_groups [s1, s2, s3] = [s1 * 4 + s2 div 16, (s2 mod 16) * 16 + s3 div 4]"
| "atob_groups [s1, s2] = [s1 * 4 + s2 div 16]"
| "atob_groups [s1] = []"
| "atob_groups [] = []"

definition atob :: "string \<Rightarrow> string option" where
  "atob data =
     (let d1 = filter (\<lambda>c. \<not> is_ascii_whitespace c) data;
          d2 = (if length d1 mod 4 = 0 then strip_padding d1 else d1)
      in if length d2 mod 4 = 1 then None
         else case those (map b64_index d2) of
                None \<Rightarrow> None
              | Some sextets \<Rightarrow> Some (map char_of (atob_groups sextets)))"

text \<open>
  The 6-bit groups that \<open>btoa_groups\<close> writes as alphabet characters, and the number of
  padding characters it appends.
\<close>

fun enc_sextets :: "nat list \<Rightarrow> nat list" where
  "enc_sextets (a # b # c # rest) =
     [a div 4, (a mod 4) * 16 + b div 16, (b mod 16) * 4 + c div 64, c mod 64] @ enc_sextets rest"
| "enc_sextets [a, b] = [a div 4, (a mod 4) * 16 + b div 16, (b mod 16) * 4]"
| "enc_sextets [a] = [a div 4, (a mod 4) * 16]"
| "enc_sextets [] = []"

fun enc_padding :: "nat list \<Rightarrow> nat" where
  "enc_padding (a # b # c # rest) = enc_padding rest"
| "enc_padding [a, b] = 1"
| "enc_padding [a] = 2"
| "enc_padding [] = 0"

definition replace_char :: "char \<Rightarrow> char \<Rightarrow> string \<Rightarrow> string" where
  "replace_char x y s = map (\<lambda>c. if c = x then y else c) s"

definition uint8ArrayToBase64Url :: "8 word list \<Rightarrow> string" where
  "uint8ArrayToBase64Url bytes =
     (let binary = map (\<lambda>b. char_of (unat b)) bytes
      in filter (\<lambda>c. c \<noteq> CHR ''='')
           (replace_char CHR ''/'' CHR ''_'' (replace_char CHR ''+'' CHR ''-'' (btoa binary))))"

text \<open>The loop \<open>while (base64Standard.length % 4) base64Standard += '='\<close>.\<close>

function pad_to_four :: "string \<Rightarrow> string" where
  "pad_to_four s = (if length s mod 4 = 0 then s else pad_to_four (s @ ''=''))"
  by pat_completeness auto
termination
  by (relation "measure (\<lambda>s. (4 - length s mod 4) mod 4)") (auto simp: mod_Suc)

definition base64UrlToUint8Array :: "string \<Rightarrow> 8 word list option" where
  "base64UrlToUint8Array base64 =
     (let base64Standard =
            pad_to_four (replace_char CHR ''_'' CHR ''/'' (replace_char CHR ''-'' CHR ''+'' base64))
      in case atob base64Standard of
           None \<Rightarrow> None
         | Some binary_string \<Rightarrow> Some (map (\<lambda>c. of_nat (of_char c)) binary_string))"

section \<open>Share codec (App.tsx, handleShare and the effect that reads the hash)\<close>

text \<open>
  The values that \<open>JSON.stringify\<close> takes and \<open>JSON.parse\<close> returns are dynamically typed.
  \<open>jsval\<close> holds them: \<open>undefined\<close>, \<open>null\<close>, booleans, numbers, strings, arrays and objects
  (association lists with the keys in insertion order). \<open>JNum\<close> is an integer, as every
  number the encoder writes is one; \<open>JReal\<close> is any other number, given by the text that
  \<open>ToString\<close> makes of it (\<open>1.5\<close>, \<open>1e+21\<close>).
\<close>

datatype jsval =
    JUndefined
  | JNull
  | JBool bool
  | JNum int
  | JReal string
  | JStr string
  | JArr "jsval list"
  | JObj "(string \<times> jsval) list"

text \<open>
  \<open>JSON.stringify\<close>, \<open>JSON.parse\<close>, \<open>pako.deflate\<close> and \<open>pako.inflate\<close> are library
  functions; the codec takes them as the arguments \<open>stringify\<close>, \<open>parse\<close>, \<open>deflate\<close> and
  \<open>inflate\<close>, where \<open>None\<close> stands for an exception (for \<open>inflate\<close> also for a result
  that is no string, on which \<open>JSON.parse\<close> throws). What \<open>JSON.parse\<close> returns for the text
  that \<open>JSON.stringify\<close> wrote is \<open>json_normal\<close> of the value: a property whose value is
  \<open>undefined\<close> is left out of an object, and \<open>undefined\<close> inside an array becomes \<open>null\<close>.
\<close>

fun json_normal :: "jsval \<Rightarrow> jsval" where
  "json_normal (JArr xs) = JArr (map (\<lambda>x. if x = JUndefined then JNull else json_normal x) xs)"
| "json_normal (JObj fs) =
     JObj (map (\<lambda>(k, v). (k, json_normal v)) (filter (\<lambda>(k, v). v \<noteq> JUndefined) fs))"
| "json_normal v = v"

subsection \<open>Encoding\<close>

text \<open>
  \<open>playerIdToIndexMap\<close> is filled by \<open>forEach\<close> with \<open>set(p.id, index)\<close>, so a later player
  with the same identifier overwrites an earlier one. \<open>Map.get\<close> of a missing key is
  \<open>undefined\<close>. \<open>x || undefined\<close> is \<open>undefined\<close> for a missing and for an empty string.
\<close>

definition playerIdToIndexMap :: "Player list \<Rightarrow> (int \<rightharpoonup> nat)" where
  "playerIdToIndexMap ps =
     foldl (\<lambda>m (p, index). m(p_id p \<mapsto> index)) Map.empty (zip ps [0..<length ps])"

definition index_json :: "(int \<rightharpoonup> nat) \<Rightarrow> Player \<Rightarrow> jsval" where
  "index_json m p = (case m (p_id p) of None \<Rightarrow> JUndefined | Some i \<Rightarrow> JNum (int i))"

definition score_json :: "int option \<Rightarrow> jsval" where
  "score_json s = (case s of None \<Rightarrow> JNull | Some x \<Rightarrow> JNum x)"

definition or_undefined :: "string option \<Rightarrow> jsval" where
  "or_undefined s = (case s of None \<Rightarrow> JUndefined | Some x \<Rightarrow> if x = [] then JUndefined else JStr x)"

definition compactMatches :: "Tournament \<Rightarrow> jsval list" where
  "compactMatches t =
     (let m = playerIdToIndexMap (players t)
      in map (\<lambda>match.
           JArr [index_json m (player1 (team1 match)), index_json m (player2 (team1 match)),
                 index_json m (player1 (team2 match)), index_json m (player2 (team2 match)),
                 score_json (score1 match), score_json (score2 match)]) (matches t))"

text \<open>The compact record of one match, as \<open>compactMatches\<close> builds it.\<close>

definition compact_row :: "Player list \<Rightarrow> Match \<Rightarrow> jsval" where
  "compact_row ps match =
     JArr [index_json (playerIdToIndexMap ps) (player1 (team1 match)),
           index_json (playerIdToIndexMap ps) (player2 (team1 match)),
           index_json (playerIdToIndexMap ps) (player1 (team2 match)),
           index_json (playerIdToIndexMap ps) (player2 (team2 match)),
           score_json (score1 match), score_json (score2 match)]"

definition shareableData :: "Tournament \<Rightarrow> jsval" where
  "shareableData t =
     JObj [(''v'', JNum 1),
           (''n'', JStr (t_name t)),
           (''l'', or_undefined (location t)),
           (''t'', or_undefined (time t)),
           (''c'', JStr (createdAt t)),
           (''p'', JArr (map (\<lambda>p. JStr (p_name p)) (players t))),
           (''m'', JArr (compactMatches t))]"

definition share_token :: "(jsval \<Rightarrow> string) \<Rightarrow> (string \<Rightarrow> 8 word list) \<Rightarrow> Tournament \<Rightarrow> string" where
  "share_token stringify deflate t =
     (let jsonString = stringify (shareableData t);
          compressed = deflate jsonString
      in uint8ArrayToBase64Url compressed)"

definition handleShare ::
  "(jsval \<Rightarrow> string) \<Rightarrow> (string \<Rightarrow> 8 word list) \<Rightarrow> string \<Rightarrow> string \<Rightarrow> Tournament \<Rightarrow> string" where
  "handleShare stringify deflate origin pathname t =
     origin @ pathname @ ''#/view/'' @ share_token stringify deflate t"

subsection \<open>Decoding\<close>

text \<open>
  The decoded tournament is a \<open>Tournament\<close> by annotation only: its fields hold whatever
  the parsed data held, and a player looked up at a position outside the roster is
  \<open>undefined\<close>. The records below keep this: the dynamically typed fields are \<open>jsval\<close>, a
  team member is an optional player.
\<close>

record DPlayer =
  d_id :: nat
  d_name :: jsval

record DTeam =
  d_player1 :: "DPlayer option"
  d_player2 :: "DPlayer option"

record DMatch =
  dm_id :: string
  d_team1 :: DTeam
  d_team2 :: DTeam
  d_score1 :: jsval
  d_score2 :: jsval
  d_completed :: bool

record DTournament =
  dt_id :: string
  dt_name :: jsval
  dt_createdAt :: jsval
  dt_players :: "DPlayer list"
  dt_matches :: "DMatch list"
  dt_location :: jsval
  dt_time :: jsval

datatype DecodeError = DecodeError

text \<open>
  \<open>js_property v k\<close> is the property access \<open>v.k\<close> for the keys the decoder reads: it throws
  (\<open>None\<close>) on \<open>null\<close> and \<open>undefined\<close>, reads an own property of an object, and is
  \<open>undefined\<close> otherwise. \<open>js_array_elements v\<close> is what \<open>v.map(f)\<close> iterates over: it throws
  unless \<open>v\<close> is an array. \<open>js_destructure6 v\<close> is \<open>const [a, b, c, d, e, f] = v\<close>: an array
  gives its first six elements, a string its first six characters, missing positions are
  \<open>undefined\<close>, and every other value is not iterable and throws.
\<close>

definition js_property :: "jsval \<Rightarrow> string \<Rightarrow> jsval option" where
  "js_property v k =
     (case v of
        JUndefined \<Rightarrow> None
      | JNull \<Rightarrow> None
      | JObj fs \<Rightarrow> Some (case map_of fs k of None \<Rightarrow> JUndefined | Some x \<Rightarrow> x)
      | _ \<Rightarrow> Some JUndefined)"

definition js_array_elements :: "jsval \<Rightarrow> jsval list option" where
  "js_array_elements v = (case v of JArr xs \<Rightarrow> Some xs | _ \<Rightarrow> None)"

definition first_six :: "jsval list \<Rightarrow> jsval list" where
  "first_six xs = take 6 (xs @ replicate 6 JUndefined)"

definition js_destructure6 :: "jsval \<Rightarrow> jsval list option" where
  "js_destructure6 v =
     (case v of
        JArr xs \<Rightarrow> Some (first_six xs)
      | JStr s \<Rightarrow> Some (first_six (map (\<lambda>c. JStr [c]) s))
      | _ \<Rightarrow> None)"

text \<open>
  \<open>ToString\<close> of a value, as a template literal and a property key need it. An array
  element that is \<open>null\<close> or \<open>undefined\<close> contributes the empty string. The text of an
  integer is its decimal numeral (for a magnitude of \<open>10 ^ 21\<close> or more the program writes
  an exponent instead, which is not modelled: such a number is no position of an array
  either way).
\<close>

fun join_with :: "string \<Rightarrow> string list \<Rightarrow> string" where
  "join_with sep [] = []"
| "join_with sep [x] = x"
| "join_with sep (x # y # ys) = x @ sep @ join_with sep (y # ys)"

fun js_to_string :: "jsval \<Rightarrow> string" where
  "js_to_string JUndefined = ''undefined''"
| "js_to_string JNull = ''null''"
| "js_to_string (JBool b) = (if b then ''true'' else ''false'')"
| "js_to_string (JNum n) = show_int n"
| "js_to_string (JReal s) = s"
| "js_to_string (JStr s) = s"
| "js_to_string (JArr xs) =
     join_with '','' (map (\<lambda>x. if x = JUndefined \<or> x = JNull then [] else js_to_string x) xs)"
| "js_to_string (JObj fs) = ''[object Object]''"

text \<open>
  \<open>players[idx]\<close>: the property key is \<open>ToString(idx)\<close>; the element at position \<open>i\<close> is
  the property whose key is the decimal numeral of \<open>i\<close>. A key that is no position of the
  array reads \<open>undefined\<close> (the inherited properties of arrays, such as \<open>length\<close>, are not
  modelled).
\<close>

definition array_get :: "'a list \<Rightarrow> jsval \<Rightarrow> 'a option" where
  "array_get xs idx =
     (case find (\<lambda>i. show_nat i = js_to_string idx) [0..<length xs] of
        None \<Rightarrow> None
      | Some i \<Rightarrow> Some (xs ! i))"

definition rebuild_players :: "jsval list \<Rightarrow> DPlayer list" where
  "rebuild_players names = map (\<lambda>(name, index). \<lparr>d_id = index, d_name = name\<rparr>) (zip names [0..<length names])"

definition rebuild_match :: "DPlayer list \<Rightarrow> jsval \<Rightarrow> DMatch option" where
  "rebuild_match ps matchData =
     (case js_destructure6 matchData of
        None \<Rightarrow> None
      | Some r \<Rightarrow>
          Some \<lparr>dm_id = js_to_string (r ! 0) @ ''-'' @ js_to_string (r ! 1) @ ''-'' @
                       js_to_string (r ! 2) @ ''-'' @ js_to_string (r ! 3),
                d_team1 = \<lparr>d_player1 = array_get ps (r ! 0), d_player2 = array_get ps (r ! 1)\<rparr>,
                d_team2 = \<lparr>d_player1 = array_get ps (r ! 2), d_player2 = array_get ps (r ! 3)\<rparr>,
                d_score1 = r ! 4,
                d_score2 = r ! 5,
                d_completed = (r ! 4 \<noteq> JNull \<and> r ! 5 \<noteq> JNull)\<rparr>)"

text \<open>
  The body of the \<open>try\<close> block after \<open>JSON.parse\<close>. Every exception ends in the one
  \<open>catch\<close>, which reports the link as invalid and sets no tournament.
\<close>

definition rebuild_tournament :: "int \<Rightarrow> jsval \<Rightarrow> DTournament option" where
  "rebuild_tournament now data =
     do {
       p \<leftarrow> js_property data ''p'';
       names \<leftarrow> js_array_elements p;
       let ps = rebuild_players names;
       m \<leftarrow> js_property data ''m'';
       records \<leftarrow> js_array_elements m;
       ms \<leftarrow> those (map (rebuild_match ps) records);
       n \<leftarrow> js_property data ''n'';
       c \<leftarrow> js_property data ''c'';
       l \<leftarrow> js_property data ''l'';
       t \<leftarrow> js_property data ''t'';
       Some \<lparr>dt_id = ''shared_'' @ show_int now,
             dt_name = n,
             dt_createdAt = c,
             dt_players = ps,
             dt_matches = ms,
             dt_location = l,
             dt_time = t\<rparr>
     }"

text \<open>The four team members of a decoded match, in team order.\<close>

definition dparticipants :: "DMatch \<Rightarrow> DPlayer option list" where
  "dparticipants m =
     [d_player1 (d_team1 m), d_player2 (d_team1 m), d_player1 (d_team2 m), d_player2 (d_team2 m)]"

definition decode_token ::
  "(8 word list \<Rightarrow> string option) \<Rightarrow> (string \<Rightarrow> jsval option) \<Rightarrow> int \<Rightarrow> string \<Rightarrow>
   DecodeError + DTournament" where
  "decode_token inflate parse now compressedData =
     (case base64UrlToUint8Array compressedData of
        None \<Rightarrow> Inl DecodeError
      | Some compressed \<Rightarrow>
          (case inflate compressed of
             None \<Rightarrow> Inl DecodeError
           | Some jsonString \<Rightarrow>
               (case parse jsonString of
                  None \<Rightarrow> Inl DecodeError
                | Some data \<Rightarrow>
                    (case rebuild_tournament now data of
                       None \<Rightarrow> Inl DecodeError
                     | Some t \<Rightarrow> Inr t))))"




text \<open>Two tournaments agree on every field but the match collection.\<close>

definition same_header :: "Tournament \<Rightarrow> Tournament \<Rightarrow> bool" where
  "same_header t t' =
     (t_id t' = t_id t \<and> t_name t' = t_name t \<and> players t' = players t \<and>
      createdAt t' = createdAt t \<and> location t' = location t \<and> time t' = time t)"

text \<open>
  The flag of a match agrees with its scores when the match is completed exactly if both
  scores are set. \<open>scored_nonneg\<close> adds that both scores are at least zero.
\<close>

definition well_flagged :: "Match \<Rightarrow> bool" where
  "well_flagged m = (completed m \<longleftrightarrow> (score1 m \<noteq> None \<and> score2 m \<noteq> None))"

definition all_well_flagged :: "Tournament list \<Rightarrow> bool" where
  "all_well_flagged ts = (\<forall>t \<in> set ts. \<forall>m \<in> set (matches t). well_flagged m)"

definition scored_nonneg :: "Match \<Rightarrow> bool" where
  "scored_nonneg m =
     (case (score1 m, score2 m) of (Some a, Some b) \<Rightarrow> 0 \<le> a \<and> 0 \<le> b | _ \<Rightarrow> False)"

section \<open>The library functions on the sample tokens\<close>

text \<open>
  The properties of the codec are stated for arbitrary \<open>stringify\<close>, \<open>parse\<close>, \<open>deflate\<close> and
  \<open>inflate\<close>. To evaluate the codec on sample tokens, this section gives one instance of
  each, following ECMA-262 (\<open>JSON\<close>) and RFC 1950/1951 (the zlib stream that \<open>pako\<close> reads
  and writes), for the part of their domain that the samples need:
  \<^item> \<open>json_stringify\<close> writes integers as decimal numerals and strings of code units below
    256 with the escapes of \<open>JSON.stringify\<close>; it leaves out a property whose value is
    \<open>undefined\<close> and writes \<open>null\<close> for \<open>undefined\<close> in an array;
  \<^item> \<open>json_parse\<close> reads the JSON grammar with numbers that are integers without fraction
    and exponent and with \<open>\u\<close> escapes below 256; for every other text it gives \<open>None\<close>,
    also where \<open>JSON.parse\<close> would return a value. The nesting is bounded by the length of
    the text;
  \<^item> \<open>zlib_store\<close> writes a text of ASCII characters, shorter than 65536, as a zlib stream
    with one stored block: the header \<open>78 01\<close>, the block header, the length and its
    complement, the bytes, and the Adler-32 checksum. \<open>pako.deflate\<close> would choose a
    compressed block; both are streams that \<open>pako.inflate\<close> reads back to the text;
  \<^item> \<open>zlib_unstore\<close> reads a stream of that form and gives \<open>None\<close> for every other one.
\<close>

definition hex_digit :: "nat \<Rightarrow> char" where
  "hex_digit d = ''0123456789abcdef'' ! d"

definition escape_char :: "char \<Rightarrow> string" where
  "escape_char c =
     (if c = CHR 0x22 then [CHR 0x5C, CHR 0x22]
      else if c = CHR 0x5C then [CHR 0x5C, CHR 0x5C]
      else if c = CHR 0x08 then [CHR 0x5C, CHR ''b'']
      else if c = CHR 0x0C then [CHR 0x5C, CHR ''f'']
      else if c = CHR 0x0A then [CHR 0x5C, CHR ''n'']
      else if c = CHR 0x0D then [CHR 0x5C, CHR ''r'']
      else if c = CHR 0x09 then [CHR 0x5C, CHR ''t'']
      else if (of_char c :: nat) < 32
      then [CHR 0x5C, CHR ''u'', CHR ''0'', CHR ''0'',
            hex_digit (of_char c div 16), hex_digit (of_char c mod 16)]
      else [c])"

definition quote_string :: "string \<Rightarrow> string" where
  "quote_string s = [CHR 0x22] @ concat (map escape_char s) @ [CHR 0x22]"

fun json_stringify :: "jsval \<Rightarrow> string" where
  "json_stringify JUndefined = []"
| "json_stringify JNull = ''null''"
| "json_stringify (JBool b) = (if b then ''true'' else ''false'')"
| "json_stringify (JNum n) = show_int n"
| "json_stringify (JReal s) = s"
| "json_stringify (JStr s) = quote_string s"
| "json_stringify (JArr xs) =
     ''['' @ join_with '','' (map (\<lambda>x. if x = JUndefined then ''null'' else json_stringify x) xs) @ '']''"
| "json_stringify (JObj fs) =
     ''{'' @ join_with '',''
              (map (\<lambda>(k, v). quote_string k @ '':'' @ json_stringify v)
                 (filter (\<lambda>(k, v). v \<noteq> JUndefined) fs)) @ ''}''"

definition is_json_ws :: "char \<Rightarrow> bool" where
  "is_json_ws c = (c \<in> set [CHR '' '', CHR 0x09, CHR 0x0A, CHR 0x0D])"

definition hex_val :: "char \<Rightarrow> nat option" where
  "hex_val c = map_of (zip ''0123456789abcdefABCDEF'' ([0..<16] @ [10..<16])) c"

fun parse_string :: "string \<Rightarrow> string \<Rightarrow> (string \<times> string) option" where
  "parse_string [] acc = None"
| "parse_string (c # r) acc =
     (if c = CHR 0x22 then Some (rev acc, r)
      else if (of_char c :: nat) < 32 then None
      else if c = CHR 0x5C then
        (case r of
           [] \<Rightarrow> None
         | e # r' \<Rightarrow>
             if e = CHR 0x22 \<or> e = CHR 0x5C \<or> e = CHR ''/'' then parse_string r' (e # acc)
             else if e = CHR ''b'' then parse_string r' (CHR 0x08 # acc)
             else if e = CHR ''f'' then parse_string r' (CHR 0x0C # acc)
             else if e = CHR ''n'' then parse_string r' (CHR 0x0A # acc)
             else if e = CHR ''r'' then parse_string r' (CHR 0x0D # acc)
             else if e = CHR ''t'' then parse_string r' (CHR 0x09 # acc)
             else if e = CHR ''u'' then
               (case r' of
                  a # b # c' # d # r'' \<Rightarrow>
                    (case (hex_val a, hex_val b, hex_val c', hex_val d) of
                       (Some 0, Some 0, Some h, Some l) \<Rightarrow>
                         parse_string r'' (char_of (h * 16 + l) # acc)
                     | _ \<Rightarrow> None)
                | _ \<Rightarrow> None)
             else None)
      else parse_string r (c # acc))"

definition parse_number :: "string \<Rightarrow> (jsval \<times> string) option" where
  "parse_number s =
     (let neg = (s \<noteq> [] \<and> hd s = CHR ''-'');
          s1 = (if neg then tl s else s);
          ds = takeWhile is_digit s1;
          r = dropWhile is_digit s1
      in if ds = [] \<or> (length ds > 1 \<and> hd ds = CHR ''0'') then None
         else if r \<noteq> [] \<and> (hd r = CHR ''.'' \<or> hd r = CHR ''e'' \<or> hd r = CHR ''E'') then None
         else Some (JNum (double_round
                      (if neg then - int (nat_of_digits ds) else int (nat_of_digits ds))), r))"

definition starts_with :: "string \<Rightarrow> string \<Rightarrow> bool" where
  "starts_with p s = (take (length p) s = p)"

fun parse_value :: "nat \<Rightarrow> string \<Rightarrow> (jsval \<times> string) option"
  and parse_elements :: "nat \<Rightarrow> string \<Rightarrow> jsval list \<Rightarrow> (jsval \<times> string) option"
  and parse_members :: "nat \<Rightarrow> string \<Rightarrow> (string \<times> jsval) list \<Rightarrow> (jsval \<times> string) option"
where
  "parse_value 0 s = None"
| "parse_value (Suc n) s =
     (case dropWhile is_json_ws s of
        [] \<Rightarrow> None
      | c # r \<Rightarrow>
          if c = CHR ''{'' then
            (case dropWhile is_json_ws r of
               [] \<Rightarrow> None
             | c' # r' \<Rightarrow> if c' = CHR ''}'' then Some (JObj [], r') else parse_members n r [])
          else if c = CHR ''['' then
            (case dropWhile is_json_ws r of
               [] \<Rightarrow> None
             | c' # r' \<Rightarrow> if c' = CHR '']'' then Some (JArr [], r') else parse_elements n r [])
          else if c = CHR 0x22 then map_option (\<lambda>(x, r'). (JStr x, r')) (parse_string r [])
          else if starts_with ''null'' (c # r) then Some (JNull, drop 4 (c # r))
          else if starts_with ''true'' (c # r) then Some (JBool True, drop 4 (c # r))
          else if starts_with ''false'' (c # r) then Some (JBool False, drop 5 (c # r))
          else parse_number (c # r))"
| "parse_elements 0 s acc = None"
| "parse_elements (Suc n) s acc =
     (case parse_value n s of
        None \<Rightarrow> None
      | Some (v, r) \<Rightarrow>
          (case dropWhile is_json_ws r of
             [] \<Rightarrow> None
           | c # r' \<Rightarrow>
               if c = CHR '','' then parse_elements n r' (acc @ [v])
               else if c = CHR '']'' then Some (JArr (acc @ [v]), r')
               else None))"
| "parse_members 0 s acc = None"
| "parse_members (Suc n) s acc =
     (case dropWhile is_json_ws s of
        [] \<Rightarrow> None
      | q # r0 \<Rightarrow>
          if q \<noteq> CHR 0x22 then None
          else
            (case parse_string r0 [] of
               None \<Rightarrow> None
             | Some (k, r1) \<Rightarrow>
                 (case dropWhile is_json_ws r1 of
                    [] \<Rightarrow> None
                  | colon # r2 \<Rightarrow>
                      if colon \<noteq> CHR '':'' then None
                      else
                        (case parse_value n r2 of
                           None \<Rightarrow> None
                         | Some (v, r3) \<Rightarrow>
                             (case dropWhile is_json_ws r3 of
                                [] \<Rightarrow> None
                              | c # r4 \<Rightarrow>
                                  if c = CHR '','' then parse_members n r4 (obj_put k v acc)
                                  else if c = CHR ''}'' then Some (JObj (obj_put k v acc), r4)
                                  else None)))))"

definition json_parse :: "string \<Rightarrow> jsval option" where
  "json_parse s =
     (case parse_value (Suc (length s)) s of
        None \<Rightarrow> None
      | Some (v, r) \<Rightarrow> if dropWhile is_json_ws r = [] then Some v else None)"

definition adler32 :: "8 word list \<Rightarrow> int" where
  "adler32 bs =
     (case foldl (\<lambda>(a, b) x. let a' = (a + uint x) mod 65521 in (a', (b + a') mod 65521)) (1, 0) bs of
        (a, b) \<Rightarrow> b * 65536 + a)"

definition be32 :: "int \<Rightarrow> 8 word list" where
  "be32 x = [of_int (x div 16777216), of_int (x div 65536 mod 256), of_int (x div 256 mod 256),
             of_int (x mod 256)]"

definition zlib_store :: "string \<Rightarrow> 8 word list" where
  "zlib_store s =
     (let payload = map (\<lambda>c. of_nat (of_char c)) s;
          n = int (length s)
      in [0x78, 0x01, 0x01, of_int (n mod 256), of_int (n div 256),
          of_int (255 - n mod 256), of_int (255 - n div 256)] @ payload @ be32 (adler32 payload))"

definition zlib_unstore :: "8 word list \<Rightarrow> string option" where
  "zlib_unstore bytes =
     (case bytes of
        cmf # flg # hdr # l0 # l1 # n0 # n1 # rest \<Rightarrow>
          (let len = uint l0 + 256 * uint l1;
               payload = take (nat len) rest;
               trailer = drop (nat len) rest
           in if cmf = 0x78 \<and> (uint cmf * 256 + uint flg) mod 31 = 0 \<and> uint flg div 32 mod 2 = 0 \<and>
                 hdr = 0x01 \<and> uint n0 + 256 * uint n1 = 65535 - len \<and>
                 int (length rest) = len + 4 \<and> list_all (\<lambda>b. uint b < 128) payload \<and>
                 trailer = be32 (adler32 payload)
              then Some (map (\<lambda>b. char_of (unat b)) payload)
              else None)
      | _ \<Rightarrow> None)"

section \<open>Sample data\<close>

text \<open>
  A roster of four players, a roster of five players whose identifiers are time stamps,
  and the state after creating a tournament from the first.
\<close>

definition demo_roster :: "Player list" where
  "demo_roster =
     [\<lparr>p_id = 1, p_name = ''An''\<rparr>, \<lparr>p_id = 2, p_name = ''Binh''\<rparr>,
      \<lparr>p_id = 3, p_name = ''Chi''\<rparr>, \<lparr>p_id = 4, p_name = ''Dung''\<rparr>]"

definition demo_five :: "Player list" where
  "demo_five =
     [\<lparr>p_id = 1714550400001, p_name = ''A''\<rparr>, \<lparr>p_id = 1714550400917, p_name = ''B''\<rparr>,
      \<lparr>p_id = 1714550402342, p_name = ''C''\<rparr>, \<lparr>p_id = 1714550405120, p_name = ''D''\<rparr>,
      \<lparr>p_id = 1714550409876, p_name = ''E''\<rparr>]"

definition demo_state :: AppState where
  "demo_state =
     handleCreateTournament 7 ''2024-05-01T08:00:00.000Z'' (\<lambda>i. 0) demo_roster ''Cup'' ''Hanoi'' ''''
       \<lparr>tournaments = [], activeTournamentId = None\<rparr>"

definition demo_tournament :: Tournament where
  "demo_tournament = hd (tournaments demo_state)"

text \<open>The state after typing \<open>-1\<close> and \<open>3\<close> into the form of the only match and saving.\<close>

definition demo_negative :: AppState where
  "demo_negative = handleSave ''-1'' ''3'' (hd (matches demo_tournament)) demo_state"

text \<open>The only match of the four-player roster, saved with the score 7 : 7.\<close>

definition demo_tie :: Match where
  "demo_tie = set_score ''1-2-3-4'' 7 7 (hd (generate_matches demo_roster))"

text \<open>The same match saved as \<open>2 ^ 53\<close> : \<open>2 ^ 53\<close>, and saved as 1 : 1.\<close>

definition demo_tie_big :: Match where
  "demo_tie_big =
     set_score ''1-2-3-4'' 9007199254740992 9007199254740992 (hd (generate_matches demo_roster))"

definition demo_tie_one :: Match where
  "demo_tie_one = set_score ''1-2-3-4'' 1 1 (hd (generate_matches demo_roster))"






section \<open>The shuffle is a permutation\<close>

lemma length_shuffle_from: "length (shuffle_from rnd i xs) = length xs"
  by (induction i arbitrary: xs) (simp_all add: Let_def)

lemma mset_shuffle_from: "i < length xs \<Longrightarrow> mset (shuffle_from rnd i xs) = mset xs"
proof (induction i arbitrary: xs)
  case 0
  then show ?case by simp
next
  case (Suc i)
  let ?j = "rnd (Suc i) mod (Suc i + 1)"
  have "?j < Suc i + 1" by (rule mod_less_divisor) simp
  then have j: "?j < length xs" using Suc.prems by linarith
  have "mset (xs[Suc i := xs ! ?j, ?j := xs ! Suc i]) = mset xs"
    using Suc.prems j by (simp add: mset_swap)
  moreover have "i < length (xs[Suc i := xs ! ?j, ?j := xs ! Suc i])"
    using Suc.prems by simp
  ultimately show ?case using Suc.IH by (simp add: Let_def)
qed

lemma mset_shuffle: "mset (shuffle rnd xs) = mset xs"
proof (cases xs)
  case Nil
  then show ?thesis by (simp add: shuffle_def)
next
  case (Cons a list)
  then have "length xs - 1 < length xs" by simp
  then show ?thesis unfolding shuffle_def by (rule mset_shuffle_from)
qed

lemma set_shuffle: "set (shuffle rnd xs) = set xs"
  using mset_shuffle by (metis set_mset_mset)

lemma length_shuffle: "length (shuffle rnd xs) = length xs"
  using mset_shuffle by (metis size_mset)

lemma mset_generate: "mset (generate rnd ps) = mset (generate_matches ps)"
  by (simp add: generate_def mset_shuffle)

lemma set_generate: "set (generate rnd ps) = set (generate_matches ps)"
  by (simp add: generate_def set_shuffle)

section \<open>The index quadruples of the generator\<close>

lemma in_concat_mapI: "x \<in> set xs \<Longrightarrow> y \<in> set (f x) \<Longrightarrow> y \<in> set (concat (map f xs))"
  by auto

lemma in_quadruples:
  "(i, j, k, l) \<in> set (quadruples n) \<longleftrightarrow> i < j \<and> j < k \<and> k < l \<and> l < n"
proof
  assume "(i, j, k, l) \<in> set (quadruples n)"
  then show "i < j \<and> j < k \<and> k < l \<and> l < n"
    by (auto simp: quadruples_def)
next
  assume a: "i < j \<and> j < k \<and> k < l \<and> l < n"
  then have 1: "(i, j, k, l) \<in> set (map (\<lambda>l. (i, j, k, l)) [Suc k..<n])" by simp
  from a have "k \<in> set [Suc j..<n]" by simp
  then have 2: "(i, j, k, l) \<in> set (concat (map (\<lambda>k. map (\<lambda>l. (i, j, k, l)) [Suc k..<n]) [Suc j..<n]))"
    using 1 by (rule in_concat_mapI)
  from a have "j \<in> set [Suc i..<n]" by simp
  then have 3: "(i, j, k, l) \<in> set (concat (map (\<lambda>j. concat (map (\<lambda>k. map (\<lambda>l. (i, j, k, l)) [Suc k..<n]) [Suc j..<n])) [Suc i..<n]))"
    using 2 by (rule in_concat_mapI)
  from a have "i \<in> set [0..<n]" by simp
  then show "(i, j, k, l) \<in> set (quadruples n)"
    unfolding quadruples_def using 3 by (rule in_concat_mapI)
qed

lemma set_quadruples:
  "set (quadruples n) = {(i, j, k, l). i < j \<and> j < k \<and> k < l \<and> l < n}"
  using in_quadruples by auto

lemma distinct_concat_map:
  assumes "distinct xs"
    and "\<And>x. x \<in> set xs \<Longrightarrow> distinct (f x)"
    and "\<And>x y. x \<in> set xs \<Longrightarrow> y \<in> set xs \<Longrightarrow> x \<noteq> y \<Longrightarrow> set (f x) \<inter> set (f y) = {}"
  shows "distinct (concat (map f xs))"
  using assms
proof (induction xs)
  case Nil
  then show ?case by simp
next
  case (Cons a xs)
  have "set (f a) \<inter> set (f y) = {}" if "y \<in> set xs" for y
    using Cons.prems(1) Cons.prems(3)[of a y] that by auto
  then have "set (f a) \<inter> \<Union> (set ` f ` set xs) = {}" by blast
  moreover have "distinct (concat (map f xs))"
    using Cons by (metis distinct.simps(2) list.set_intros(2))
  ultimately show ?case using Cons.prems(2)[of a] by simp
qed

lemma distinct_concat_map_key:
  assumes "distinct xs"
    and "\<And>x. x \<in> set xs \<Longrightarrow> distinct (f x)"
    and "\<And>x q. x \<in> set xs \<Longrightarrow> q \<in> set (f x) \<Longrightarrow> key q = x"
  shows "distinct (concat (map f xs))"
proof (rule distinct_concat_map [OF assms(1) assms(2)])
  fix x y assume "x \<in> set xs" "y \<in> set xs" "x \<noteq> y"
  then show "set (f x) \<inter> set (f y) = {}"
    using assms(3) by blast
qed

lemma distinct_quadruples: "distinct (quadruples n)"
  unfolding quadruples_def
proof (rule distinct_concat_map_key [where key = fst])
  show "distinct [0..<n]" by simp
next
  fix i
  show "distinct (concat (map (\<lambda>j. concat (map (\<lambda>k. map (\<lambda>l. (i, j, k, l)) [Suc k..<n]) [Suc j..<n])) [Suc i..<n]))"
  proof (rule distinct_concat_map_key [where key = "\<lambda>q. fst (snd q)"])
    show "distinct [Suc i..<n]" by simp
  next
    fix j
    show "distinct (concat (map (\<lambda>k. map (\<lambda>l. (i, j, k, l)) [Suc k..<n]) [Suc j..<n]))"
    proof (rule distinct_concat_map_key [where key = "\<lambda>q. fst (snd (snd q))"])
      show "distinct [Suc j..<n]" by simp
    next
      fix k
      show "distinct (map (\<lambda>l. (i, j, k, l)) [Suc k..<n])"
        by (simp add: distinct_map inj_on_def)
    next
      fix k q assume "q \<in> set (map (\<lambda>l. (i, j, k, l)) [Suc k..<n])"
      then show "fst (snd (snd q)) = k" by auto
    qed
  next
    fix j q
    assume "q \<in> set (concat (map (\<lambda>k. map (\<lambda>l. (i, j, k, l)) [Suc k..<n]) [Suc j..<n]))"
    then show "fst (snd q) = j" by auto
  qed
next
  fix i q
  assume "q \<in> set (concat (map (\<lambda>j. concat (map (\<lambda>k. map (\<lambda>l. (i, j, k, l)) [Suc k..<n]) [Suc j..<n])) [Suc i..<n]))"
  then show "fst q = i" by auto
qed

lemma quadruple_set_inj:
  fixes i :: nat
  assumes "i < j" "j < k" "k < l" and "i' < j'" "j' < k'" "k' < l'"
    and "{i, j, k, l} = {i', j', k', l'}"
  shows "i = i' \<and> j = j' \<and> k = k' \<and> l = l'"
proof -
  have "[i, j, k, l] = [i', j', k', l']"
  proof (rule sorted_distinct_set_unique)
    show "sorted [i, j, k, l]" using assms by simp
    show "distinct [i, j, k, l]" using assms by simp
    show "sorted [i', j', k', l']" using assms by simp
    show "distinct [i', j', k', l']" using assms by simp
    show "set [i, j, k, l] = set [i', j', k', l']" using assms(7) by simp
  qed
  then show ?thesis by simp
qed

lemma length_four: "length xs = 4 \<Longrightarrow> \<exists>a b c d. xs = [a, b, c, d]"
  by (auto simp: length_Suc_conv numeral_eq_Suc)

lemma four_subset_sorted:
  fixes I :: "nat set"
  assumes "card I = 4"
  shows "\<exists>i j k l. i < j \<and> j < k \<and> k < l \<and> I = {i, j, k, l}"
proof -
  have fin: "finite I" using assms by (simp add: card_ge_0_finite)
  let ?xs = "sorted_list_of_set I"
  have len: "length ?xs = 4" using assms fin by simp
  have "\<exists>a b c d. ?xs = [a, b, c, d]"
    by (rule length_four) (rule len)
  then obtain a b c d where xs: "?xs = [a, b, c, d]" by blast
  have "sorted ?xs" "distinct ?xs" "set ?xs = I" using fin by simp_all
  then have "a < b \<and> b < c \<and> c < d \<and> I = {a, b, c, d}"
    unfolding xs by auto
  then show ?thesis by blast
qed

lemma length_quadruples: "length (quadruples n) = n choose 4"
proof -
  let ?Q = "set (quadruples n)"
  let ?g = "\<lambda>(i, j, k, l). {i, j, k, l}"
  have "bij_betw ?g ?Q {I. I \<subseteq> {..<n} \<and> card I = 4}"
    unfolding bij_betw_def
  proof
    show "inj_on ?g ?Q"
    proof (rule inj_onI)
      fix x y assume x: "x \<in> ?Q" and y: "y \<in> ?Q" and e: "?g x = ?g y"
      obtain i j k l where xq: "x = (i, j, k, l)" by (cases x) auto
      obtain i' j' k' l' where yq: "y = (i', j', k', l')" by (cases y) auto
      from x xq have a: "i < j" "j < k" "k < l" by (simp_all add: in_quadruples)
      from y yq have b: "i' < j'" "j' < k'" "k' < l'" by (simp_all add: in_quadruples)
      from e have "{i, j, k, l} = {i', j', k', l'}" unfolding xq yq by simp
      from quadruple_set_inj[OF a b this] show "x = y" unfolding xq yq by simp
    qed
    show "?g ` ?Q = {I. I \<subseteq> {..<n} \<and> card I = 4}"
    proof (intro equalityI subsetI)
      fix I assume "I \<in> ?g ` ?Q"
      then obtain x where x: "x \<in> ?Q" and I: "I = ?g x" by blast
      obtain i j k l where xq: "x = (i, j, k, l)" by (cases x) auto
      from x xq have a: "i < j" "j < k" "k < l" "l < n" by (simp_all add: in_quadruples)
      then have "I \<subseteq> {..<n} \<and> card I = 4" unfolding I xq by auto
      then show "I \<in> {I. I \<subseteq> {..<n} \<and> card I = 4}" by simp
    next
      fix I assume "I \<in> {I. I \<subseteq> {..<n} \<and> card I = 4}"
      then have sub: "I \<subseteq> {..<n}" and c: "card I = 4" by auto
      from four_subset_sorted[OF c] obtain i j k l
        where q: "i < j" "j < k" "k < l" "I = {i, j, k, l}" by blast
      with sub have "l < n" by auto
      with q have "(i, j, k, l) \<in> ?Q" by (simp add: in_quadruples)
      moreover have "I = ?g (i, j, k, l)" using q by simp
      ultimately show "I \<in> ?g ` ?Q" by (rule rev_image_eqI)
    qed
  qed
  then have "card ?Q = card {I. I \<subseteq> {..<n} \<and> card I = 4}"
    by (rule bij_betw_same_card)
  also have "\<dots> = n choose 4" using n_subsets[of "{..<n}" 4] by simp
  finally show ?thesis using distinct_quadruples by (simp add: distinct_card)
qed

section \<open>Generated matches and subsets of the roster\<close>

lemma participants_new_match: "participants (new_match a b c d) = [a, b, c, d]"
  by (simp add: participants_def new_match_def)

lemma roster_index_inj:
  assumes "distinct (map p_id ps)" "i < length ps" "j < length ps" "p_id (ps ! i) = p_id (ps ! j)"
  shows "i = j"
proof -
  have "map p_id ps ! i = map p_id ps ! j" using assms by simp
  moreover have "i < length (map p_id ps)" "j < length (map p_id ps)" using assms by simp_all
  ultimately show ?thesis using nth_eq_iff_index_eq[OF assms(1)] by blast
qed

lemma distinct_roster: "distinct (map p_id ps) \<Longrightarrow> distinct ps"
  by (simp add: distinct_map)

lemma roster_image_inj:
  assumes d: "distinct (map p_id ps)"
    and q: "i < j" "j < k" "k < l" "l < length ps"
    and q': "i' < j'" "j' < k'" "k' < l'" "l' < length ps"
    and e: "{ps ! i, ps ! j, ps ! k, ps ! l} = {ps ! i', ps ! j', ps ! k', ps ! l'}"
  shows "i = i' \<and> j = j' \<and> k = k' \<and> l = l'"
proof -
  have inj: "inj_on ((!) ps) {..<length ps}"
    using distinct_roster[OF d] by (simp add: inj_on_nth)
  have A: "{i, j, k, l} \<subseteq> {..<length ps}" using q by auto
  have B: "{i', j', k', l'} \<subseteq> {..<length ps}" using q' by auto
  have "(!) ps ` {i, j, k, l} = (!) ps ` {i', j', k', l'}" using e by simp
  then have "{i, j, k, l} = {i', j', k', l'}"
    using inj_on_image_eq_iff[OF inj A B] by simp
  from quadruple_set_inj[OF q(1-3) q'(1-3) this] show ?thesis .
qed

lemma roster_subset_indices:
  assumes d: "distinct (map p_id ps)" and S: "S \<subseteq> set ps" and c: "card S = 4"
  shows "\<exists>i j k l. i < j \<and> j < k \<and> k < l \<and> l < length ps \<and> S = {ps ! i, ps ! j, ps ! k, ps ! l}"
proof -
  let ?I = "{i. i < length ps \<and> ps ! i \<in> S}"
  have inj: "inj_on ((!) ps) ?I"
    using distinct_roster[OF d] by (auto simp: inj_on_def nth_eq_iff_index_eq)
  have img: "(!) ps ` ?I = S"
  proof (intro equalityI subsetI)
    fix x assume "x \<in> (!) ps ` ?I" then show "x \<in> S" by auto
  next
    fix x assume x: "x \<in> S"
    then have "x \<in> set ps" using S by auto
    then obtain i where "i < length ps" "ps ! i = x" by (auto simp: in_set_conv_nth)
    then have "i \<in> ?I" "x = ps ! i" using x by auto
    then show "x \<in> (!) ps ` ?I" by (rule_tac rev_image_eqI)
  qed
  have "card ?I = card S" using card_image[OF inj] img by simp
  then have "card ?I = 4" using c by simp
  from four_subset_sorted[OF this] obtain i j k l
    where q: "i < j" "j < k" "k < l" and I: "?I = {i, j, k, l}" by blast
  have "l \<in> ?I" unfolding I by simp
  then have l: "l < length ps" by simp
  have "S = (!) ps ` {i, j, k, l}" using img I by simp
  then have "S = {ps ! i, ps ! j, ps ! k, ps ! l}" by simp
  with q l show ?thesis by blast
qed


lemma in_generate_matches:
  "m \<in> set (generate_matches ps) \<longleftrightarrow>
     (\<exists>i j k l. i < j \<and> j < k \<and> k < l \<and> l < length ps \<and>
        m = new_match (ps ! i) (ps ! j) (ps ! k) (ps ! l))"
proof
  assume "m \<in> set (generate_matches ps)"
  then obtain q where q: "q \<in> set (quadruples (length ps))"
    and m: "m = (\<lambda>(i, j, k, l). new_match (ps ! i) (ps ! j) (ps ! k) (ps ! l)) q"
    unfolding generate_matches_def by auto
  obtain i j k l where qq: "q = (i, j, k, l)" by (cases q) auto
  from q qq have "i < j \<and> j < k \<and> k < l \<and> l < length ps" by (simp add: in_quadruples)
  moreover from m qq have "m = new_match (ps ! i) (ps ! j) (ps ! k) (ps ! l)" by simp
  ultimately show "\<exists>i j k l. i < j \<and> j < k \<and> k < l \<and> l < length ps \<and>
        m = new_match (ps ! i) (ps ! j) (ps ! k) (ps ! l)" by blast
next
  assume "\<exists>i j k l. i < j \<and> j < k \<and> k < l \<and> l < length ps \<and>
        m = new_match (ps ! i) (ps ! j) (ps ! k) (ps ! l)"
  then obtain i j k l where a: "i < j \<and> j < k \<and> k < l \<and> l < length ps"
    and m: "m = new_match (ps ! i) (ps ! j) (ps ! k) (ps ! l)" by blast
  from a have "(i, j, k, l) \<in> set (quadruples (length ps))" by (simp add: in_quadruples)
  moreover have "m = (\<lambda>(i, j, k, l). new_match (ps ! i) (ps ! j) (ps ! k) (ps ! l)) (i, j, k, l)"
    using m by simp
  ultimately show "m \<in> set (generate_matches ps)"
    unfolding generate_matches_def set_map by (rule rev_image_eqI)
qed

lemma length_generate_matches: "length (generate_matches ps) = length ps choose 4"
  by (simp add: generate_matches_def length_quadruples)

lemma length_generate: "length (generate rnd ps) = length ps choose 4"
  by (simp add: generate_def length_shuffle length_generate_matches)

lemma length_filter_mset: "mset xs = mset ys \<Longrightarrow> length (filter P xs) = length (filter P ys)"
  by (metis mset_filter size_mset)

lemma cover_once_generate_matches:
  assumes d: "distinct (map p_id ps)" and S: "S \<subseteq> set ps" and c: "card S = 4"
  shows "length (filter (\<lambda>m. set (participants m) = S) (generate_matches ps)) = 1"
proof -
  let ?f = "\<lambda>(i, j, k, l). new_match (ps ! i) (ps ! j) (ps ! k) (ps ! l)"
  let ?R = "\<lambda>q. set (participants (?f q)) = S"
  let ?qs = "quadruples (length ps)"
  from roster_subset_indices[OF d S c] obtain i j k l
    where q0: "i < j" "j < k" "k < l" "l < length ps"
      and S0: "S = {ps ! i, ps ! j, ps ! k, ps ! l}" by blast
  have R: "?R (a, b, c, e) \<longleftrightarrow> {ps ! a, ps ! b, ps ! c, ps ! e} = S" for a b c e
    by (simp add: participants_new_match)
  have "{q. ?R q} \<inter> set ?qs = {(i, j, k, l)}"
  proof (intro equalityI subsetI)
    fix q assume q: "q \<in> {q. ?R q} \<inter> set ?qs"
    obtain a b c e where qq: "q = (a, b, c, e)" by (cases q) auto
    from q qq have lt: "a < b" "b < c" "c < e" "e < length ps" by (simp_all add: in_quadruples)
    from q qq have "?R (a, b, c, e)" by simp
    then have "{ps ! a, ps ! b, ps ! c, ps ! e} = S" using R[of a b c e] by blast
    then have "{ps ! a, ps ! b, ps ! c, ps ! e} = {ps ! i, ps ! j, ps ! k, ps ! l}"
      unfolding S0 .
    from roster_image_inj[OF d lt q0 this] show "q \<in> {(i, j, k, l)}" using qq by simp
  next
    fix q assume "q \<in> {(i, j, k, l)}"
    then have qq: "q = (i, j, k, l)" by simp
    have "{ps ! i, ps ! j, ps ! k, ps ! l} = S" unfolding S0 ..
    then have "?R (i, j, k, l)" using R[of i j k l] by blast
    moreover have "(i, j, k, l) \<in> set ?qs" using q0 by (simp add: in_quadruples)
    ultimately show "q \<in> {q. ?R q} \<inter> set ?qs" unfolding qq by simp
  qed
  then have "card ({q. ?R q} \<inter> set ?qs) = 1" by simp
  then have "length (filter ?R ?qs) = 1"
    using distinct_length_filter[OF distinct_quadruples, of ?R "length ps"] by simp
  moreover have "filter (\<lambda>m. set (participants m) = S) (generate_matches ps) = map ?f (filter ?R ?qs)"
    unfolding generate_matches_def filter_map comp_def ..
  ultimately show ?thesis by simp
qed

lemma generate_matches_participants:
  assumes d: "distinct (map p_id ps)" and m: "m \<in> set (generate_matches ps)"
  shows "distinct (map p_id (participants m)) \<and> set (participants m) \<subseteq> set ps \<and>
         card (set (participants m)) = 4"
proof -
  from m obtain i j k l where lt: "i < j" "j < k" "k < l" "l < length ps"
    and mm: "m = new_match (ps ! i) (ps ! j) (ps ! k) (ps ! l)"
    unfolding in_generate_matches by blast
  have ne: "p_id (ps ! a) \<noteq> p_id (ps ! b)" if "a < b" "b < length ps" for a b
    using roster_index_inj[OF d, of a b] that by auto
  have 1: "distinct (map p_id (participants m))"
    unfolding mm participants_new_match using lt ne by auto
  then have "distinct (participants m)" by (simp add: distinct_map)
  then have 3: "card (set (participants m)) = 4"
    using distinct_card[of "participants m"] by (simp add: mm participants_new_match)
  have 2: "set (participants m) \<subseteq> set ps"
    unfolding mm participants_new_match using lt by auto
  from 1 2 3 show ?thesis by blast
qed

section \<open>Decimal numerals and match identifiers\<close>

declare show_nat.simps [simp del]

lemma digit_char_is_digit: "d < 10 \<Longrightarrow> is_digit (digit_char d)"
  by (simp add: is_digit_def digit_char_def)

lemma digit_val_digit_char: "d < 10 \<Longrightarrow> digit_val (digit_char d) = d"
  by (simp add: digit_val_def digit_char_def)

lemma show_nat_digits: "c \<in> set (show_nat n) \<Longrightarrow> is_digit c"
proof (induction n arbitrary: c rule: show_nat.induct)
  case (1 n)
  show ?case
  proof (cases "n < 10")
    case True
    with 1(2) show ?thesis by (simp add: show_nat.simps[of n] digit_char_is_digit)
  next
    case False
    with 1(2) have "c \<in> set (show_nat (n div 10)) \<or> c = digit_char (n mod 10)"
      by (auto simp: show_nat.simps[of n])
    then show ?thesis using 1(1)[OF False] digit_char_is_digit[of "n mod 10"] by auto
  qed
qed

lemma show_nat_nonempty: "show_nat n \<noteq> []"
  by (simp add: show_nat.simps[of n])

lemma nat_of_digits_snoc: "nat_of_digits (ds @ [c]) = 10 * nat_of_digits ds + digit_val c"
  by (simp add: nat_of_digits_def)

lemma nat_of_digits_show_nat: "nat_of_digits (show_nat n) = n"
proof (induction n rule: show_nat.induct)
  case (1 n)
  show ?case
  proof (cases "n < 10")
    case True
    then show ?thesis
      by (simp add: show_nat.simps[of n] nat_of_digits_def digit_val_digit_char)
  next
    case False
    have "nat_of_digits (show_nat n) = 10 * nat_of_digits (show_nat (n div 10)) + digit_val (digit_char (n mod 10))"
      using False by (simp add: show_nat.simps[of n] nat_of_digits_snoc)
    also have "\<dots> = 10 * (n div 10) + n mod 10"
      using 1[OF False] by (simp add: digit_val_digit_char)
    finally show ?thesis by simp
  qed
qed

lemma show_nat_inj: "show_nat a = show_nat b \<Longrightarrow> a = b"
  by (metis nat_of_digits_show_nat)

lemma dash_not_digit: "\<not> is_digit CHR ''-''"
  by (simp add: is_digit_def)

lemma digits_dash_split:
  assumes "\<And>c. c \<in> set ds \<Longrightarrow> is_digit c" and "\<And>c. c \<in> set ds' \<Longrightarrow> is_digit c"
    and "ds @ CHR ''-'' # r = ds' @ CHR ''-'' # r'"
  shows "ds = ds' \<and> r = r'"
proof -
  have "takeWhile is_digit (ds @ CHR ''-'' # r) = ds"
    using assms(1) by (simp add: takeWhile_append2 dash_not_digit)
  moreover have "takeWhile is_digit (ds' @ CHR ''-'' # r') = ds'"
    using assms(2) by (simp add: takeWhile_append2 dash_not_digit)
  ultimately have "ds = ds'" using assms(3) by simp
  then show ?thesis using assms(3) by simp
qed

lemma show_nat_hd_not_dash: "hd (show_nat n) \<noteq> CHR ''-''"
proof -
  have "hd (show_nat n) \<in> set (show_nat n)" using show_nat_nonempty by simp
  then have "is_digit (hd (show_nat n))" by (rule show_nat_digits)
  then show ?thesis using dash_not_digit by auto
qed

lemma show_int_sign: "hd (show_int a @ s) = CHR ''-'' \<longleftrightarrow> a < 0"
  using show_nat_hd_not_dash[of "nat a"] show_nat_nonempty[of "nat a"]
  by (simp add: show_int_def hd_append)

lemma show_int_split:
  assumes "show_int a @ CHR ''-'' # r = show_int b @ CHR ''-'' # r'"
  shows "a = b \<and> r = r'"
proof -
  have s: "a < 0 \<longleftrightarrow> b < 0"
    using show_int_sign[of a "CHR ''-'' # r"] show_int_sign[of b "CHR ''-'' # r'"] assms by simp
  show ?thesis
  proof (cases "a < 0")
    case True
    then have b: "b < 0" using s by simp
    from assms True b
    have "show_nat (nat (- a)) @ CHR ''-'' # r = show_nat (nat (- b)) @ CHR ''-'' # r'"
      by (simp add: show_int_def)
    from digits_dash_split[OF show_nat_digits show_nat_digits this]
    have "show_nat (nat (- a)) = show_nat (nat (- b))" and r: "r = r'" by simp_all
    then have "nat (- a) = nat (- b)" by (simp add: show_nat_inj)
    with True b r show ?thesis by simp
  next
    case False
    then have b: "\<not> b < 0" using s by simp
    from assms False b
    have "show_nat (nat a) @ CHR ''-'' # r = show_nat (nat b) @ CHR ''-'' # r'"
      by (simp add: show_int_def)
    from digits_dash_split[OF show_nat_digits show_nat_digits this]
    have "show_nat (nat a) = show_nat (nat b)" and r: "r = r'" by simp_all
    then have "nat a = nat b" by (simp add: show_nat_inj)
    with False b r show ?thesis by simp
  qed
qed

lemma show_int_inj: "show_int a = show_int b \<Longrightarrow> a = b"
proof -
  assume "show_int a = show_int b"
  then have "show_int a @ CHR ''-'' # [] = show_int b @ CHR ''-'' # []" by simp
  from show_int_split[OF this] show "a = b" by simp
qed

lemma match_id_inj:
  assumes "match_id p1 p2 p3 p4 = match_id q1 q2 q3 q4"
  shows "p_id p1 = p_id q1 \<and> p_id p2 = p_id q2 \<and> p_id p3 = p_id q3 \<and> p_id p4 = p_id q4"
proof -
  from assms have e: "show_int (p_id p1) @ CHR ''-'' # (show_int (p_id p2) @ CHR ''-'' # (show_int (p_id p3) @ CHR ''-'' # show_int (p_id p4)))
      = show_int (p_id q1) @ CHR ''-'' # (show_int (p_id q2) @ CHR ''-'' # (show_int (p_id q3) @ CHR ''-'' # show_int (p_id q4)))"
    by (simp add: match_id_def)
  from show_int_split[OF e] have 1: "p_id p1 = p_id q1"
    and e2: "show_int (p_id p2) @ CHR ''-'' # (show_int (p_id p3) @ CHR ''-'' # show_int (p_id p4))
      = show_int (p_id q2) @ CHR ''-'' # (show_int (p_id q3) @ CHR ''-'' # show_int (p_id q4))"
    by simp_all
  from show_int_split[OF e2] have 2: "p_id p2 = p_id q2"
    and e3: "show_int (p_id p3) @ CHR ''-'' # show_int (p_id p4)
      = show_int (p_id q3) @ CHR ''-'' # show_int (p_id q4)"
    by simp_all
  from show_int_split[OF e3] have 3: "p_id p3 = p_id q3"
    and "show_int (p_id p4) = show_int (p_id q4)" by simp_all
  then have "p_id p4 = p_id q4" by (simp add: show_int_inj)
  with 1 2 3 show ?thesis by simp
qed

section \<open>Base64 groups\<close>

lemma btoa_groups_split:
  "btoa_groups bs = map b64_char (enc_sextets bs) @ replicate (enc_padding bs) CHR ''=''"
  by (induction bs rule: btoa_groups.induct) (simp_all add: numeral_2_eq_2)

lemma div_mult_add: "y < n \<Longrightarrow> (x * n + y) div n = (x::nat)"
  by simp

lemma mod_mult_add: "y < n \<Longrightarrow> (x * n + y) mod n = (y::nat)"
  by simp

lemma regroup:
  assumes "b < 256" "c < 256"
  shows "a div 4 * 4 + (a mod 4 * 16 + b div 16) div 16 = (a::nat)"
    and "(a mod 4 * 16 + b div 16) mod 16 * 16 + (b mod 16 * 4 + c div 64) div 4 = b"
    and "(b mod 16 * 4 + c div 64) mod 4 * 64 + c mod 64 = c"
proof -
  have b: "b div 16 < 16" using assms(1) by (simp add: div_less_iff_less_mult)
  have c: "c div 64 < 4" using assms(2) by (simp add: div_less_iff_less_mult)
  show "a div 4 * 4 + (a mod 4 * 16 + b div 16) div 16 = a"
    unfolding div_mult_add[OF b] by simp
  show "(a mod 4 * 16 + b div 16) mod 16 * 16 + (b mod 16 * 4 + c div 64) div 4 = b"
    unfolding mod_mult_add[OF b] div_mult_add[OF c] by simp
  show "(b mod 16 * 4 + c div 64) mod 4 * 64 + c mod 64 = c"
    unfolding mod_mult_add[OF c] by simp
qed

lemma atob_enc_sextets: "\<forall>b \<in> set bs. b < 256 \<Longrightarrow> atob_groups (enc_sextets bs) = bs"
proof (induction bs rule: enc_sextets.induct)
  case (1 a b c rest)
  have bc: "b < 256" "c < 256" using 1(2) by simp_all
  have "atob_groups (enc_sextets rest) = rest" using 1 by simp
  then show ?case
    using regroup(1)[OF bc, of a] regroup(2)[OF bc, of a] regroup(3)[OF bc] by simp
next
  case (2 a b)
  have b: "b < 256" using 2 by simp
  have z: "(0::nat) < 256" by simp
  from regroup(1)[OF b z, of a] regroup(2)[OF b z, of a] show ?case by simp
next
  case (3 a)
  have z: "(0::nat) < 256" by simp
  from regroup(1)[OF z z, of a] show ?case by simp
next
  case 4
  then show ?case by simp
qed

lemma sextet_bounds:
  assumes "a < 256" "b < 256"
  shows "a div 4 < (64::nat)" and "a mod 4 * 16 + b div 16 < 64" and "b mod 64 < 64"
proof -
  show "a div 4 < 64" using assms(1) by (simp add: div_less_iff_less_mult)
  have "b div 16 < 16" using assms(2) by (simp add: div_less_iff_less_mult)
  moreover have "a mod 4 < 4" by simp
  ultimately show "a mod 4 * 16 + b div 16 < 64" by linarith
  show "b mod 64 < 64" by simp
qed

lemma sextet_bound3:
  assumes "c < 256"
  shows "b mod 16 * 4 + c div 64 < (64::nat)"
proof -
  have "c div 64 < 4" using assms by (simp add: div_less_iff_less_mult)
  moreover have "b mod 16 < 16" by simp
  ultimately show ?thesis by linarith
qed

lemma enc_sextets_bound: "\<forall>b \<in> set bs. b < 256 \<Longrightarrow> s \<in> set (enc_sextets bs) \<Longrightarrow> s < 64"
proof (induction bs rule: enc_sextets.induct)
  case (1 a b c rest)
  have abc: "a < 256" "b < 256" "c < 256" using 1(2) by simp_all
  have r: "\<forall>b \<in> set rest. b < 256" using 1(2) by simp
  from 1(3) have "s = a div 4 \<or> s = a mod 4 * 16 + b div 16 \<or> s = b mod 16 * 4 + c div 64 \<or>
      s = c mod 64 \<or> s \<in> set (enc_sextets rest)" by auto
  then show ?case
    using sextet_bounds[OF abc(1,2)] sextet_bound3[OF abc(3), of b] 1(1)[OF r] by auto
next
  case (2 a b)
  have ab: "a < 256" "b < 256" using 2(1) by simp_all
  have z: "(0::nat) < 256" by simp
  from 2(2) have "s = a div 4 \<or> s = a mod 4 * 16 + b div 16 \<or> s = b mod 16 * 4" by auto
  then show ?case using sextet_bounds[OF ab] sextet_bound3[OF z, of b] by auto
next
  case (3 a)
  have a: "a < 256" using 3(1) by simp
  have z: "(0::nat) < 256" by simp
  from 3(2) have "s = a div 4 \<or> s = a mod 4 * 16" by auto
  then show ?case using sextet_bounds(1,2)[OF a z] by auto
next
  case 4
  then show ?case by simp
qed

lemma enc_lengths:
  "(length (enc_sextets bs) + enc_padding bs) mod 4 = 0 \<and> enc_padding bs \<le> 2 \<and>
   length (enc_sextets bs) mod 4 \<noteq> 1 \<and>
   enc_padding bs = (4 - length (enc_sextets bs) mod 4) mod 4"
proof (induction bs rule: enc_sextets.induct)
  case (1 a b c rest)
  define n where "n = length (enc_sextets rest)"
  define p where "p = enc_padding rest"
  have l: "length (enc_sextets (a # b # c # rest)) = n + 4" by (simp add: n_def)
  have q: "enc_padding (a # b # c # rest) = p" by (simp add: p_def)
  have ih: "(n + p) mod 4 = 0 \<and> p \<le> 2 \<and> n mod 4 \<noteq> 1 \<and> p = (4 - n mod 4) mod 4"
    using 1 unfolding n_def p_def .
  have m: "(n + 4) mod 4 = n mod 4" by simp
  from ih have h1: "(n + p) mod 4 = 0" and h2: "p \<le> 2" and h3: "n mod 4 \<noteq> 1"
    and h4: "p = (4 - n mod 4) mod 4" by blast+
  have e: "(n + 4 + p) mod 4 = (n + p) mod 4" by presburger
  have "(n + 4 + p) mod 4 = 0" by (rule trans[OF e h1])
  moreover have "(n + 4) mod 4 \<noteq> 1" "p = (4 - (n + 4) mod 4) mod 4"
    unfolding m by (rule h3, rule h4)
  ultimately show ?case unfolding l q using h2 by blast
next
  case (2 a b)
  then show ?case by simp
next
  case (3 a)
  then show ?case by simp
next
  case 4
  then show ?case by simp
qed

lemma alphabet_table:
  "list_all (\<lambda>n. b64_index (b64_char n) = Some n \<and> b64_char n \<noteq> CHR ''='' \<and>
                  b64_char n \<noteq> CHR ''-'' \<and> b64_char n \<noteq> CHR ''_'' \<and>
                  \<not> is_ascii_whitespace (b64_char n)) [0..<64]"
  by code_simp

lemma alphabet_facts:
  assumes "n < 64"
  shows "b64_index (b64_char n) = Some n" and "b64_char n \<noteq> CHR ''=''"
    and "b64_char n \<noteq> CHR ''-''" and "b64_char n \<noteq> CHR ''_''"
    and "\<not> is_ascii_whitespace (b64_char n)"
proof -
  have "n \<in> set [0..<64]" using assms by simp
  with alphabet_table have
    "b64_index (b64_char n) = Some n \<and> b64_char n \<noteq> CHR ''='' \<and>
     b64_char n \<noteq> CHR ''-'' \<and> b64_char n \<noteq> CHR ''_'' \<and> \<not> is_ascii_whitespace (b64_char n)"
    unfolding list_all_iff by blast
  then show "b64_index (b64_char n) = Some n" and "b64_char n \<noteq> CHR ''=''"
    and "b64_char n \<noteq> CHR ''-''" and "b64_char n \<noteq> CHR ''_''"
    and "\<not> is_ascii_whitespace (b64_char n)" by blast+
qed

lemma equals_not_whitespace: "\<not> is_ascii_whitespace CHR ''=''"
  by (simp add: is_ascii_whitespace_def)

lemma those_index_chars:
  "\<forall>s \<in> set ss. s < 64 \<Longrightarrow> those (map b64_index (map b64_char ss)) = Some ss"
  by (induction ss) (simp_all add: alphabet_facts(1))

lemma url_roundtrip_char:
  assumes "n < 64"
  shows "(\<lambda>c. if c = CHR ''_'' then CHR ''/'' else c)
           ((\<lambda>c. if c = CHR ''-'' then CHR ''+'' else c)
             ((\<lambda>c. if c = CHR ''/'' then CHR ''_'' else c)
               ((\<lambda>c. if c = CHR ''+'' then CHR ''-'' else c) (b64_char n)))) = b64_char n"
  using alphabet_facts(3,4)[OF assms] by auto

lemma url_char_not_equals:
  assumes "n < 64"
  shows "(\<lambda>c. if c = CHR ''/'' then CHR ''_'' else c)
               ((\<lambda>c. if c = CHR ''+'' then CHR ''-'' else c) (b64_char n)) \<noteq> CHR ''=''"
  using alphabet_facts(2)[OF assms] by auto

declare pad_to_four.simps [simp del]

lemma pad_to_four_replicate:
  "pad_to_four s = s @ replicate ((4 - length s mod 4) mod 4) CHR ''=''"
proof (induction s rule: pad_to_four.induct)
  case (1 s)
  show ?case
  proof (cases "length s mod 4 = 0")
    case True
    then show ?thesis by (simp add: pad_to_four.simps[of s])
  next
    case False
    define r where "r = length s mod 4"
    have r: "r = 1 \<or> r = 2 \<or> r = 3" using False unfolding r_def by presburger
    have l: "length (s @ ''='') mod 4 = Suc r mod 4" unfolding r_def by (simp add: mod_Suc_eq)
    have "pad_to_four s = pad_to_four (s @ ''='')"
      using False by (simp add: pad_to_four.simps[of s])
    also have "\<dots> = (s @ ''='') @ replicate ((4 - Suc r mod 4) mod 4) CHR ''=''"
      using 1[OF False] unfolding l .
    also have "\<dots> = s @ replicate (Suc ((4 - Suc r mod 4) mod 4)) CHR ''=''"
      by simp
    also have "Suc ((4 - Suc r mod 4) mod 4) = (4 - r) mod 4" using r by auto
    finally show ?thesis unfolding r_def .
  qed
qed

lemma strip_padding_replicate:
  assumes "k \<le> 2" and "CHR ''='' \<notin> set body"
  shows "strip_padding (body @ replicate k CHR ''='') = body"
proof -
  have k: "k = 0 \<or> k = 1 \<or> k = 2" using assms(1) by auto
  have nl: "body \<noteq> [] \<Longrightarrow> last body \<noteq> CHR ''=''" using assms(2) last_in_set by metis
  from k show ?thesis
  proof (elim disjE)
    assume "k = 0"
    then show ?thesis using nl by (auto simp: strip_padding_def)
  next
    assume "k = 1"
    then show ?thesis using nl by (auto simp: strip_padding_def)
  next
    assume "k = 2"
    then have "body @ replicate k CHR ''='' = (body @ ''='') @ ''=''" by (simp add: numeral_2_eq_2)
    then show ?thesis using nl by (auto simp: strip_padding_def butlast_append)
  qed
qed

lemma atob_btoa_groups:
  assumes bs: "\<forall>b \<in> set bs. b < 256"
  shows "atob (btoa_groups bs) = Some (map char_of bs)"
proof -
  let ?ss = "enc_sextets bs"
  let ?body = "map b64_char ?ss"
  let ?k = "enc_padding bs"
  have lt: "\<forall>s \<in> set ?ss. s < 64" using enc_sextets_bound[OF bs] by blast
  have split: "btoa_groups bs = ?body @ replicate ?k CHR ''=''" by (rule btoa_groups_split)
  have nows: "\<forall>c \<in> set (?body @ replicate ?k CHR ''=''). \<not> is_ascii_whitespace c"
    using lt alphabet_facts(5) equals_not_whitespace by auto
  have d1: "filter (\<lambda>c. \<not> is_ascii_whitespace c) (?body @ replicate ?k CHR ''='') =
      ?body @ replicate ?k CHR ''=''"
    using nows by (simp only: filter_True)
  have len: "length (?body @ replicate ?k CHR ''='') mod 4 = 0"
    using enc_lengths[of bs, THEN conjunct1] by simp
  have "c \<noteq> CHR ''=''" if "c \<in> set ?body" for c
  proof -
    from that obtain n where n: "n \<in> set ?ss" and c: "c = b64_char n" by auto
    from n lt have "n < 64" by blast
    then show ?thesis unfolding c by (rule alphabet_facts(2))
  qed
  then have noeq: "CHR ''='' \<notin> set ?body" by blast
  have k2: "?k \<le> 2" by (rule enc_lengths[of bs, THEN conjunct2, THEN conjunct1])
  have d2: "strip_padding (?body @ replicate ?k CHR ''='') = ?body"
    by (rule strip_padding_replicate[OF k2 noeq])
  have n1: "length ?body mod 4 \<noteq> 1"
    using enc_lengths[of bs, THEN conjunct2, THEN conjunct2, THEN conjunct1] by simp
  have th: "those (map b64_index ?body) = Some ?ss" by (rule those_index_chars[OF lt])
  have dec: "atob_groups ?ss = bs" by (rule atob_enc_sextets[OF bs])
  show ?thesis
    unfolding atob_def split Let_def d1 if_P[OF len] d2 if_not_P[OF n1] th option.case dec ..
qed

lemma byte_roundtrip: "of_nat (of_char (char_of (unat (b :: 8 word)) :: char)) = b"
proof -
  have "unat b < 256" using unsigned_less[of b, where ?'a = nat] by simp
  then have "(of_char (char_of (unat b)) :: nat) = unat b" by (simp add: of_char_of)
  then show ?thesis by simp
qed

lemma btoa_binary:
  "btoa (map (\<lambda>b. char_of (unat (b :: 8 word))) bytes) = btoa_groups (map unat bytes)"
proof -
  have "(of_char (char_of (unat b)) :: nat) = unat b" for b :: "8 word"
  proof -
    have "unat b < 256" using unsigned_less[of b, where ?'a = nat] by simp
    then show ?thesis by (simp add: of_char_of)
  qed
  then show ?thesis by (simp add: btoa_def comp_def)
qed

lemma url_encode_body:
  assumes lt: "\<forall>s \<in> set ss. s < 64"
  shows "filter (\<lambda>c. c \<noteq> CHR ''='')
           (replace_char CHR ''/'' CHR ''_'' (replace_char CHR ''+'' CHR ''-''
              (map b64_char ss @ replicate k CHR ''=''))) =
         map (\<lambda>n. (\<lambda>c. if c = CHR ''/'' then CHR ''_'' else c)
               ((\<lambda>c. if c = CHR ''+'' then CHR ''-'' else c) (b64_char n))) ss"
proof -
  have "filter (\<lambda>c. c \<noteq> CHR ''='') (map (\<lambda>n. (\<lambda>c. if c = CHR ''/'' then CHR ''_'' else c)
               ((\<lambda>c. if c = CHR ''+'' then CHR ''-'' else c) (b64_char n))) ss) =
        map (\<lambda>n. (\<lambda>c. if c = CHR ''/'' then CHR ''_'' else c)
               ((\<lambda>c. if c = CHR ''+'' then CHR ''-'' else c) (b64_char n))) ss"
  proof (rule filter_True)
    show "\<forall>c \<in> set (map (\<lambda>n. (\<lambda>c. if c = CHR ''/'' then CHR ''_'' else c)
               ((\<lambda>c. if c = CHR ''+'' then CHR ''-'' else c) (b64_char n))) ss). c \<noteq> CHR ''=''"
    proof
      fix c assume "c \<in> set (map (\<lambda>n. (\<lambda>c. if c = CHR ''/'' then CHR ''_'' else c)
               ((\<lambda>c. if c = CHR ''+'' then CHR ''-'' else c) (b64_char n))) ss)"
      then obtain n where n: "n \<in> set ss"
        and c: "c = (\<lambda>c. if c = CHR ''/'' then CHR ''_'' else c)
               ((\<lambda>c. if c = CHR ''+'' then CHR ''-'' else c) (b64_char n))" by auto
      from n lt have "n < 64" by blast
      then show "c \<noteq> CHR ''=''" unfolding c by (rule url_char_not_equals)
    qed
  qed
  moreover have "filter (\<lambda>c. c \<noteq> CHR ''='')
      (replace_char CHR ''/'' CHR ''_'' (replace_char CHR ''+'' CHR ''-'' (replicate k CHR ''=''))) = []"
    by (simp add: replace_char_def filter_empty_conv)
  ultimately show ?thesis by (simp add: replace_char_def comp_def)
qed

lemma url_decode_body:
  assumes lt: "\<forall>s \<in> set ss. s < 64"
  shows "replace_char CHR ''_'' CHR ''/'' (replace_char CHR ''-'' CHR ''+''
           (map (\<lambda>n. (\<lambda>c. if c = CHR ''/'' then CHR ''_'' else c)
               ((\<lambda>c. if c = CHR ''+'' then CHR ''-'' else c) (b64_char n))) ss)) =
         map b64_char ss"
  unfolding replace_char_def map_map comp_def
  by (rule map_cong[OF refl]) (use lt url_roundtrip_char in auto)

lemma url_char_safe:
  "(\<lambda>c. if c = CHR ''/'' then CHR ''_'' else c)
     ((\<lambda>c. if c = CHR ''+'' then CHR ''-'' else c) x) \<noteq> CHR ''+'' \<and>
   (\<lambda>c. if c = CHR ''/'' then CHR ''_'' else c)
     ((\<lambda>c. if c = CHR ''+'' then CHR ''-'' else c) x) \<noteq> CHR ''/''"
  by auto

lemma unat_bytes_bound: "\<forall>b \<in> set (map unat (bytes :: 8 word list)). b < 256"
proof
  fix b assume "b \<in> set (map unat bytes)"
  then obtain w :: "8 word" where "b = unat w" by auto
  then show "b < 256" using unsigned_less[of w, where ?'a = nat] by simp
qed

lemma url_token_chars:
  "uint8ArrayToBase64Url bytes =
     map (\<lambda>n. (\<lambda>c. if c = CHR ''/'' then CHR ''_'' else c)
               ((\<lambda>c. if c = CHR ''+'' then CHR ''-'' else c) (b64_char n)))
       (enc_sextets (map unat bytes))"
proof -
  have lt: "\<forall>s \<in> set (enc_sextets (map unat bytes)). s < 64"
    using enc_sextets_bound[OF unat_bytes_bound] by blast
  show ?thesis
    unfolding uint8ArrayToBase64Url_def Let_def btoa_binary btoa_groups_split
    by (rule url_encode_body[OF lt])
qed

lemma repad_token:
  "pad_to_four (replace_char CHR ''_'' CHR ''/'' (replace_char CHR ''-'' CHR ''+''
         (uint8ArrayToBase64Url bytes))) = btoa_groups (map unat bytes)"
proof -
  let ?bs = "map unat bytes"
  let ?ss = "enc_sextets ?bs"
  have lt: "\<forall>s \<in> set ?ss. s < 64" using enc_sextets_bound[OF unat_bytes_bound] by blast
  have k: "enc_padding ?bs = (4 - length (map b64_char ?ss) mod 4) mod 4"
    using enc_lengths[of ?bs, THEN conjunct2, THEN conjunct2, THEN conjunct2] by simp
  have pad: "pad_to_four (map b64_char ?ss) = btoa_groups ?bs"
    unfolding pad_to_four_replicate btoa_groups_split k[symmetric] ..
  show ?thesis unfolding url_token_chars url_decode_body[OF lt] pad ..
qed

lemma decode_encode_bytes: "base64UrlToUint8Array (uint8ArrayToBase64Url bytes) = Some bytes"
proof -
  let ?bs = "map unat bytes"
  have "base64UrlToUint8Array (uint8ArrayToBase64Url bytes) =
          (case atob (btoa_groups ?bs) of None \<Rightarrow> None
           | Some binary_string \<Rightarrow> Some (map (\<lambda>c. of_nat (of_char c)) binary_string))"
    unfolding base64UrlToUint8Array_def Let_def repad_token ..
  also have "\<dots> = Some (map (\<lambda>c. of_nat (of_char c)) (map char_of ?bs))"
    unfolding atob_btoa_groups[OF unat_bytes_bound] by simp
  also have "map (\<lambda>c. of_nat (of_char c)) (map char_of ?bs) = bytes"
    using byte_roundtrip by (simp add: comp_def map_idI)
  finally show ?thesis .
qed







section \<open>The statistics object\<close>

lemma map_of_obj_modify:
  "map_of (obj_modify k f al) k' = (if k' = k then map_option f (map_of al k) else map_of al k')"
  by (induction al) auto

lemma keys_obj_modify: "map fst (obj_modify k f al) = map fst al"
  by (induction al) auto

lemma map_of_obj_put: "map_of (obj_put k v al) k' = (if k' = k then Some v else map_of al k')"
  by (induction al) auto

lemma keys_obj_put:
  "map fst (obj_put k v al) = (if k \<in> set (map fst al) then map fst al else map fst al @ [k])"
  by (induction al) force+

lemma keys_apply_match: "map fst (apply_match m st) = map fst st"
  by (simp add: apply_match_def Let_def keys_obj_modify)

lemma keys_fold_apply_match: "map fst (fold apply_match ms st) = map fst st"
  by (induction ms arbitrary: st) (simp_all add: keys_apply_match)

lemma keys_foldl_put:
  "set (map fst (foldl (\<lambda>acc player. obj_put (p_id player) (zero_entry player) acc) acc ps)) =
     set (map fst acc) \<union> p_id ` set ps"
proof (induction ps arbitrary: acc)
  case Nil
  then show ?case by simp
next
  case (Cons p ps)
  have "set (map fst (obj_put (p_id p) (zero_entry p) acc)) = insert (p_id p) (set (map fst acc))"
    by (auto simp: keys_obj_put)
  then show ?case using Cons.IH[of "obj_put (p_id p) (zero_entry p) acc"] by auto
qed

lemma key_set_init_stats: "set (map fst (init_stats ps)) = p_id ` set ps"
  unfolding init_stats_def using keys_foldl_put[of "[]" ps] by simp

lemma key_set_final_stats: "set (map fst (final_stats ps ms)) = p_id ` set ps"
  unfolding final_stats_def keys_fold_apply_match by (rule key_set_init_stats)

lemma present_final_stats:
  assumes "p \<in> set ps"
  shows "\<exists>e. map_of (final_stats ps ms) (p_id p) = Some e"
proof -
  have "p_id p \<in> set (map fst (final_stats ps ms))"
    unfolding key_set_final_stats using assms by (rule imageI)
  then have "p_id p \<in> dom (map_of (final_stats ps ms))" by (simp add: dom_map_of_conv_image_fst)
  then show ?thesis by blast
qed

lemma final_stats_snoc:
  "completed m \<Longrightarrow> final_stats ps (ms @ [m]) = apply_match m (final_stats ps ms)"
  by (simp add: final_stats_def)

lemma bit_length_bound: "n < 2 ^ k \<Longrightarrow> bit_length n \<le> k"
proof (induction k arbitrary: n)
  case 0
  then have "n \<le> 0" by simp
  then show ?case by simp
next
  case (Suc k)
  show ?case
  proof (cases "n \<le> 0")
    case True
    then show ?thesis by simp
  next
    case False
    have "n div 2 < 2 ^ k" using Suc.prems by simp
    then have "bit_length (n div 2) \<le> k" by (rule Suc.IH)
    then show ?thesis using False by simp
  qed
qed

lemma double_round_safe: "safe_integer x \<Longrightarrow> double_round x = x"
proof -
  assume s: "safe_integer x"
  have b: "double_round 9007199254740992 = 9007199254740992"
          "double_round (- 9007199254740992) = - 9007199254740992" by code_simp+
  show ?thesis
  proof (cases "\<bar>x\<bar> < 2 ^ 53")
    case True
    then have "bit_length \<bar>x\<bar> \<le> 53" by (rule bit_length_bound)
    then show ?thesis by (simp add: double_round_def Let_def)
  next
    case False
    then have "\<bar>x\<bar> = 9007199254740992" using s by (simp add: safe_integer_def)
    then have "x = 9007199254740992 \<or> x = - 9007199254740992" by linarith
    then show ?thesis using b by auto
  qed
qed

lemma js_add_safe: "safe_integer (a + b) \<Longrightarrow> js_add a b = a + b"
  unfolding js_add_def by (rule double_round_safe)

lemma apply_match_tie:
  assumes tie: "score_or_zero (score1 m) = score_or_zero (score2 m)"
    and dist: "distinct (map p_id (participants m))"
    and pres: "\<And>p. p \<in> set (participants m) \<Longrightarrow> map_of st (p_id p) \<noteq> None"
  shows "map_of (apply_match m st) k =
           (if k \<in> p_id ` set (participants m)
            then map_option (\<lambda>e. add_points (score_or_zero (score1 m)) (score_or_zero (score2 m)) (played e))
                   (map_of st k)
            else map_of st k)"
proof -
  let ?a = "p_id (player1 (team1 m))" and ?b = "p_id (player2 (team1 m))"
  let ?c = "p_id (player1 (team2 m))" and ?d = "p_id (player2 (team2 m))"
  have d: "?a \<noteq> ?b" "?a \<noteq> ?c" "?a \<noteq> ?d" "?b \<noteq> ?c" "?b \<noteq> ?d" "?c \<noteq> ?d"
    using dist by (auto simp: participants_def)
  have p: "map_of st ?a \<noteq> None" "map_of st ?b \<noteq> None" "map_of st ?c \<noteq> None" "map_of st ?d \<noteq> None"
    using pres by (simp_all add: participants_def)
  have ids: "p_id ` set (participants m) = {?a, ?b, ?c, ?d}"
    by (simp add: participants_def)
  show ?thesis
    unfolding ids apply_match_def Let_def using tie d p
    by (auto simp: map_of_obj_modify option.map_comp comp_def)
qed

section \<open>Sorting and enumeration order of the standings\<close>



























section \<open>Encoding and decoding of the compact data\<close>

lemma playerIdToIndexMap_snoc:
  "playerIdToIndexMap (ps @ [p]) = (playerIdToIndexMap ps)(p_id p \<mapsto> length ps)"
  by (simp add: playerIdToIndexMap_def)

lemma playerIdToIndexMap_nth:
  "distinct (map p_id ps) \<Longrightarrow> i < length ps \<Longrightarrow> playerIdToIndexMap ps (p_id (ps ! i)) = Some i"
proof (induction ps arbitrary: i rule: rev_induct)
  case Nil
  then show ?case by simp
next
  case (snoc p ps)
  show ?case
  proof (cases "i < length ps")
    case True
    then have "ps ! i \<in> set ps" by simp
    then have "p_id (ps ! i) \<in> p_id ` set ps" by (rule imageI)
    moreover have "p_id p \<notin> p_id ` set ps" using snoc.prems(1) by simp
    ultimately have "p_id (ps ! i) \<noteq> p_id p" by metis
    moreover have "playerIdToIndexMap ps (p_id (ps ! i)) = Some i"
      using snoc.IH[of i] snoc.prems(1) True by simp
    ultimately show ?thesis using True by (simp add: playerIdToIndexMap_snoc nth_append)
  next
    case False
    then have "i = length ps" using snoc.prems(2) by simp
    then show ?thesis by (simp add: playerIdToIndexMap_snoc)
  qed
qed

lemma index_json_roster:
  assumes "distinct (map p_id ps)" and "p \<in> set ps"
  shows "\<exists>i < length ps. ps ! i = p \<and> index_json (playerIdToIndexMap ps) p = JNum (int i)"
proof -
  from assms(2) obtain i where i: "i < length ps" "ps ! i = p" by (auto simp: in_set_conv_nth)
  then have "playerIdToIndexMap ps (p_id p) = Some i"
    using playerIdToIndexMap_nth[OF assms(1), of i] by simp
  then have "index_json (playerIdToIndexMap ps) p = JNum (int i)" by (simp add: index_json_def)
  with i show ?thesis by blast
qed

lemma find_upt_eq: "i < n \<Longrightarrow> find (\<lambda>j. j = i) [0..<n] = Some i"
proof -
  assume i: "i < n"
  have "\<exists>k<length [0..<n]. [0..<n] ! k = i \<and> i = [0..<n] ! k \<and> (\<forall>j<k. \<not> [0..<n] ! j = i)"
    using i by (intro exI[of _ i]) simp
  then show ?thesis unfolding find_Some_iff .
qed

lemma array_get_index: "i < length xs \<Longrightarrow> array_get xs (JNum (int i)) = Some (xs ! i)"
proof -
  assume i: "i < length xs"
  have "(\<lambda>j. show_nat j = js_to_string (JNum (int i))) = (\<lambda>j. j = i)"
    using show_nat_inj by (auto simp: show_int_def)
  then show ?thesis using find_upt_eq[OF i] by (simp add: array_get_def)
qed

lemma those_map_Some: "(\<And>x. x \<in> set xs \<Longrightarrow> f x = Some (g x)) \<Longrightarrow> those (map f xs) = Some (map g xs)"
  by (induction xs) simp_all

lemma rebuild_players_names:
  "rebuild_players (map (\<lambda>p. JStr (p_name p)) ps) =
     map (\<lambda>i. \<lparr>d_id = i, d_name = JStr (p_name (ps ! i))\<rparr>) [0..<length ps]"
  by (rule nth_equalityI) (simp_all add: rebuild_players_def)

lemma json_normal_or_undefined: "json_normal (or_undefined x) = or_undefined x"
  by (simp add: or_undefined_def split: option.splits)

lemma json_normal_score: "json_normal (score_json s) = score_json s"
  by (simp add: score_json_def split: option.splits)

lemma score_json_defined: "score_json s \<noteq> JUndefined"
  by (simp add: score_json_def split: option.splits)

lemma property_normal_data:
  "js_property (json_normal (shareableData t)) ''p'' = Some (JArr (map (\<lambda>p. JStr (p_name p)) (players t)))"
  "js_property (json_normal (shareableData t)) ''m'' = Some (JArr (map json_normal (compactMatches t)))"
  "js_property (json_normal (shareableData t)) ''n'' = Some (JStr (t_name t))"
  "js_property (json_normal (shareableData t)) ''c'' = Some (JStr (createdAt t))"
  "js_property (json_normal (shareableData t)) ''l'' = Some (or_undefined (location t))"
  "js_property (json_normal (shareableData t)) ''t'' = Some (or_undefined (time t))"
proof -
  have rows: "map (\<lambda>x. if x = JUndefined then JNull else json_normal x) (compactMatches t) =
      map json_normal (compactMatches t)"
    by (rule map_cong[OF refl]) (auto simp: compactMatches_def Let_def)
  have names: "map (\<lambda>x. if x = JUndefined then JNull else json_normal x) (map (\<lambda>p. JStr (p_name p)) (players t)) =
      map (\<lambda>p. JStr (p_name p)) (players t)"
    by simp
  show "js_property (json_normal (shareableData t)) ''p'' = Some (JArr (map (\<lambda>p. JStr (p_name p)) (players t)))"
    by (cases "or_undefined (location t) = JUndefined"; cases "or_undefined (time t) = JUndefined")
       (simp_all add: shareableData_def js_property_def names comp_def)
  show "js_property (json_normal (shareableData t)) ''m'' = Some (JArr (map json_normal (compactMatches t)))"
    by (cases "or_undefined (location t) = JUndefined"; cases "or_undefined (time t) = JUndefined")
       (simp_all add: shareableData_def js_property_def rows)
  show "js_property (json_normal (shareableData t)) ''n'' = Some (JStr (t_name t))"
    by (cases "or_undefined (location t) = JUndefined"; cases "or_undefined (time t) = JUndefined")
       (simp_all add: shareableData_def js_property_def)
  show "js_property (json_normal (shareableData t)) ''c'' = Some (JStr (createdAt t))"
    by (cases "or_undefined (location t) = JUndefined"; cases "or_undefined (time t) = JUndefined")
       (simp_all add: shareableData_def js_property_def)
  show "js_property (json_normal (shareableData t)) ''l'' = Some (or_undefined (location t))"
    by (cases "or_undefined (location t) = JUndefined"; cases "or_undefined (time t) = JUndefined")
       (simp_all add: shareableData_def js_property_def json_normal_or_undefined)
  show "js_property (json_normal (shareableData t)) ''t'' = Some (or_undefined (time t))"
    by (cases "or_undefined (location t) = JUndefined"; cases "or_undefined (time t) = JUndefined")
       (simp_all add: shareableData_def js_property_def json_normal_or_undefined)
qed

lemma compactMatches_rows: "compactMatches t = map (compact_row (players t)) (matches t)"
  by (simp add: compactMatches_def compact_row_def Let_def)

lemma compact_row_indices:
  assumes d: "distinct (map p_id ps)" and r: "set (participants m) \<subseteq> set ps"
  shows "\<exists>i1 i2 i3 i4. i1 < length ps \<and> i2 < length ps \<and> i3 < length ps \<and> i4 < length ps \<and>
           ps ! i1 = player1 (team1 m) \<and> ps ! i2 = player2 (team1 m) \<and>
           ps ! i3 = player1 (team2 m) \<and> ps ! i4 = player2 (team2 m) \<and>
           json_normal (compact_row ps m) =
             JArr [JNum (int i1), JNum (int i2), JNum (int i3), JNum (int i4),
                   score_json (score1 m), score_json (score2 m)]"
proof -
  have in1: "player1 (team1 m) \<in> set ps" "player2 (team1 m) \<in> set ps"
    "player1 (team2 m) \<in> set ps" "player2 (team2 m) \<in> set ps"
    using r by (simp_all add: participants_def)
  from index_json_roster[OF d in1(1)] obtain i1 where
    1: "i1 < length ps" "ps ! i1 = player1 (team1 m)"
       "index_json (playerIdToIndexMap ps) (player1 (team1 m)) = JNum (int i1)" by blast
  from index_json_roster[OF d in1(2)] obtain i2 where
    2: "i2 < length ps" "ps ! i2 = player2 (team1 m)"
       "index_json (playerIdToIndexMap ps) (player2 (team1 m)) = JNum (int i2)" by blast
  from index_json_roster[OF d in1(3)] obtain i3 where
    3: "i3 < length ps" "ps ! i3 = player1 (team2 m)"
       "index_json (playerIdToIndexMap ps) (player1 (team2 m)) = JNum (int i3)" by blast
  from index_json_roster[OF d in1(4)] obtain i4 where
    4: "i4 < length ps" "ps ! i4 = player2 (team2 m)"
       "index_json (playerIdToIndexMap ps) (player2 (team2 m)) = JNum (int i4)" by blast
  have "json_normal (compact_row ps m) =
             JArr [JNum (int i1), JNum (int i2), JNum (int i3), JNum (int i4),
                   score_json (score1 m), score_json (score2 m)]"
    unfolding compact_row_def 1(3) 2(3) 3(3) 4(3)
    by (simp add: score_json_defined json_normal_score)
  with 1(1,2) 2(1,2) 3(1,2) 4(1,2) show ?thesis by blast
qed

lemma first_six_exact: "first_six [a, b, c, d, e, f] = [a, b, c, d, e, f]"
  by (simp add: first_six_def)

lemma rebuild_match_row:
  assumes "i1 < length dps" "i2 < length dps" "i3 < length dps" "i4 < length dps"
  shows "rebuild_match dps (JArr [JNum (int i1), JNum (int i2), JNum (int i3), JNum (int i4),
                                   score_json s1, score_json s2]) =
         Some \<lparr>dm_id = show_int (int i1) @ ''-'' @ show_int (int i2) @ ''-'' @
                       show_int (int i3) @ ''-'' @ show_int (int i4),
               d_team1 = \<lparr>d_player1 = Some (dps ! i1), d_player2 = Some (dps ! i2)\<rparr>,
               d_team2 = \<lparr>d_player1 = Some (dps ! i3), d_player2 = Some (dps ! i4)\<rparr>,
               d_score1 = score_json s1, d_score2 = score_json s2,
               d_completed = (s1 \<noteq> None \<and> s2 \<noteq> None)\<rparr>"
proof -
  have c: "(score_json s1 \<noteq> JNull \<and> score_json s2 \<noteq> JNull) = (s1 \<noteq> None \<and> s2 \<noteq> None)"
    by (simp add: score_json_def split: option.splits)
  show ?thesis
    unfolding rebuild_match_def js_destructure6_def jsval.case first_six_exact option.case
    by (simp add: array_get_index[OF assms(1)] array_get_index[OF assms(2)]
        array_get_index[OF assms(3)] array_get_index[OF assms(4)] c)
qed

lemma rebuild_match_roundtrip:
  assumes d: "distinct (map p_id ps)" and r: "set (participants m) \<subseteq> set ps"
    and dps: "dps = rebuild_players (map (\<lambda>p. JStr (p_name p)) ps)"
  shows "\<exists>dm. rebuild_match dps (json_normal (compact_row ps m)) = Some dm \<and>
          map (map_option d_name) (dparticipants dm) = map (\<lambda>p. Some (JStr (p_name p))) (participants m) \<and>
          map (map_option (\<lambda>x. ps ! d_id x)) (dparticipants dm) = map Some (participants m) \<and>
          (\<forall>x. Some x \<in> set (dparticipants dm) \<longrightarrow> x \<in> set dps) \<and>
          d_score1 dm = score_json (score1 m) \<and> d_score2 dm = score_json (score2 m) \<and>
          d_completed dm = (score1 m \<noteq> None \<and> score2 m \<noteq> None)"
proof -
  from compact_row_indices[OF d r] obtain i1 i2 i3 i4 where
    lt: "i1 < length ps" "i2 < length ps" "i3 < length ps" "i4 < length ps"
    and at: "ps ! i1 = player1 (team1 m)" "ps ! i2 = player2 (team1 m)"
       "ps ! i3 = player1 (team2 m)" "ps ! i4 = player2 (team2 m)"
    and row: "json_normal (compact_row ps m) =
             JArr [JNum (int i1), JNum (int i2), JNum (int i3), JNum (int i4),
                   score_json (score1 m), score_json (score2 m)]" by blast
  have len: "length dps = length ps" unfolding dps rebuild_players_names by simp
  have nth: "dps ! i = \<lparr>d_id = i, d_name = JStr (p_name (ps ! i))\<rparr>" if "i < length ps" for i
    unfolding dps rebuild_players_names using that by simp
  have lt': "i1 < length dps" "i2 < length dps" "i3 < length dps" "i4 < length dps"
    using lt len by simp_all
  let ?dm = "\<lparr>dm_id = show_int (int i1) @ ''-'' @ show_int (int i2) @ ''-'' @
                       show_int (int i3) @ ''-'' @ show_int (int i4),
               d_team1 = \<lparr>d_player1 = Some (dps ! i1), d_player2 = Some (dps ! i2)\<rparr>,
               d_team2 = \<lparr>d_player1 = Some (dps ! i3), d_player2 = Some (dps ! i4)\<rparr>,
               d_score1 = score_json (score1 m), d_score2 = score_json (score2 m),
               d_completed = (score1 m \<noteq> None \<and> score2 m \<noteq> None)\<rparr>"
  have 0: "rebuild_match dps (json_normal (compact_row ps m)) = Some ?dm"
    unfolding row by (rule rebuild_match_row[OF lt'])
  have dp: "dparticipants ?dm = [Some (dps ! i1), Some (dps ! i2), Some (dps ! i3), Some (dps ! i4)]"
    by (simp add: dparticipants_def)
  have 1: "map (map_option d_name) (dparticipants ?dm) =
      map (\<lambda>p. Some (JStr (p_name p))) (participants m)"
    unfolding dp by (simp add: nth[OF lt(1)] nth[OF lt(2)] nth[OF lt(3)] nth[OF lt(4)] at participants_def)
  have 2: "map (map_option (\<lambda>x. ps ! d_id x)) (dparticipants ?dm) = map Some (participants m)"
    unfolding dp by (simp add: nth[OF lt(1)] nth[OF lt(2)] nth[OF lt(3)] nth[OF lt(4)] at participants_def)
  have 3: "\<forall>x. Some x \<in> set (dparticipants ?dm) \<longrightarrow> x \<in> set dps"
    unfolding dp using lt' by auto
  have 4: "d_score1 ?dm = score_json (score1 m) \<and> d_score2 ?dm = score_json (score2 m) \<and>
          d_completed ?dm = (score1 m \<noteq> None \<and> score2 m \<noteq> None)" by simp
  from 0 1 2 3 4 show ?thesis by blast
qed

lemma rebuild_tournament_roundtrip:
  assumes ids: "distinct (map p_id (players t))"
    and refs: "\<forall>m \<in> set (matches t). set (participants m) \<subseteq> set (players t)"
  shows "\<exists>d. rebuild_tournament now (json_normal (shareableData t)) = Some d
      \<and> dt_name d = JStr (t_name t) \<and> dt_createdAt d = JStr (createdAt t)
      \<and> dt_location d = or_undefined (location t) \<and> dt_time d = or_undefined (time t)
      \<and> dt_players d = rebuild_players (map (\<lambda>p. JStr (p_name p)) (players t))
      \<and> dt_matches d =
          map (\<lambda>m. the (rebuild_match (rebuild_players (map (\<lambda>p. JStr (p_name p)) (players t)))
                          (json_normal (compact_row (players t) m)))) (matches t)"
proof -
  let ?ps = "players t"
  let ?dps = "rebuild_players (map (\<lambda>p. JStr (p_name p)) ?ps)"
  let ?g = "\<lambda>m. the (rebuild_match ?dps (json_normal (compact_row ?ps m)))"
  have each: "rebuild_match ?dps (json_normal (compact_row ?ps m)) = Some (?g m)"
    if "m \<in> set (matches t)" for m
  proof -
    from that refs have "set (participants m) \<subseteq> set ?ps" by blast
    from rebuild_match_roundtrip[OF ids this refl] obtain dm
      where "rebuild_match ?dps (json_normal (compact_row ?ps m)) = Some dm" by blast
    then show ?thesis by simp
  qed
  have "those (map (rebuild_match ?dps \<circ> json_normal) (compactMatches t)) =
        those (map (\<lambda>m. rebuild_match ?dps (json_normal (compact_row ?ps m))) (matches t))"
    by (simp add: compactMatches_rows comp_def)
  also have "\<dots> = Some (map ?g (matches t))"
    by (rule those_map_Some) (rule each)
  finally have th: "those (map (rebuild_match ?dps \<circ> json_normal) (compactMatches t)) =
        Some (map ?g (matches t))" .
  have "rebuild_tournament now (json_normal (shareableData t)) =
      Some \<lparr>dt_id = ''shared_'' @ show_int now, dt_name = JStr (t_name t),
            dt_createdAt = JStr (createdAt t), dt_players = ?dps, dt_matches = map ?g (matches t),
            dt_location = or_undefined (location t), dt_time = or_undefined (time t)\<rparr>"
    unfolding rebuild_tournament_def property_normal_data
    by (simp add: js_array_elements_def Let_def th)
  then show ?thesis by simp
qed




text \<open>The codec on the sample tournament and on the sample token, step by step.\<close>

lemma demo_inflate:
  "zlib_unstore (zlib_store (json_stringify (shareableData demo_tournament))) =
     Some (json_stringify (shareableData demo_tournament))"
  by code_simp

lemma demo_parse:
  "json_parse (json_stringify (shareableData demo_tournament)) =
     Some (json_normal (shareableData demo_tournament))"
  by code_simp

lemma demo_rebuild:
  "rebuild_tournament 0 (json_normal (shareableData demo_tournament)) =
     Some \<lparr>dt_id = ''shared_0'', dt_name = JStr ''Cup'',
            dt_createdAt = JStr ''2024-05-01T08:00:00.000Z'',
            dt_players =
              [\<lparr>d_id = 0, d_name = JStr ''An''\<rparr>, \<lparr>d_id = 1, d_name = JStr ''Binh''\<rparr>,
               \<lparr>d_id = 2, d_name = JStr ''Chi''\<rparr>, \<lparr>d_id = 3, d_name = JStr ''Dung''\<rparr>],
            dt_matches =
              [\<lparr>dm_id = ''0-1-2-3'',
                d_team1 = \<lparr>d_player1 = Some \<lparr>d_id = 0, d_name = JStr ''An''\<rparr>,
                            d_player2 = Some \<lparr>d_id = 1, d_name = JStr ''Binh''\<rparr>\<rparr>,
                d_team2 = \<lparr>d_player1 = Some \<lparr>d_id = 2, d_name = JStr ''Chi''\<rparr>,
                            d_player2 = Some \<lparr>d_id = 3, d_name = JStr ''Dung''\<rparr>\<rparr>,
                d_score1 = JNull, d_score2 = JNull, d_completed = False\<rparr>],
            dt_location = JStr ''Hanoi'', dt_time = JUndefined\<rparr>"
  by code_simp

lemma demo_decoded:
  "decode_token zlib_unstore json_parse 0 (share_token json_stringify zlib_store demo_tournament) =
     Inr \<lparr>dt_id = ''shared_0'', dt_name = JStr ''Cup'',
            dt_createdAt = JStr ''2024-05-01T08:00:00.000Z'',
            dt_players =
              [\<lparr>d_id = 0, d_name = JStr ''An''\<rparr>, \<lparr>d_id = 1, d_name = JStr ''Binh''\<rparr>,
               \<lparr>d_id = 2, d_name = JStr ''Chi''\<rparr>, \<lparr>d_id = 3, d_name = JStr ''Dung''\<rparr>],
            dt_matches =
              [\<lparr>dm_id = ''0-1-2-3'',
                d_team1 = \<lparr>d_player1 = Some \<lparr>d_id = 0, d_name = JStr ''An''\<rparr>,
                            d_player2 = Some \<lparr>d_id = 1, d_name = JStr ''Binh''\<rparr>\<rparr>,
                d_team2 = \<lparr>d_player1 = Some \<lparr>d_id = 2, d_name = JStr ''Chi''\<rparr>,
                            d_player2 = Some \<lparr>d_id = 3, d_name = JStr ''Dung''\<rparr>\<rparr>,
                d_score1 = JNull, d_score2 = JNull, d_completed = False\<rparr>],
            dt_location = JStr ''Hanoi'', dt_time = JUndefined\<rparr>"
  unfolding decode_token_def share_token_def Let_def decode_encode_bytes option.case
    demo_inflate demo_parse demo_rebuild ..





section \<open>Properties of score update and match deletion\<close>

lemma set_score_not_half: "\<not> half_scored m \<Longrightarrow> \<not> half_scored (set_score mid s1 s2 m)"
  by (simp add: set_score_def half_scored_def)

lemma filter_remove_one:
  assumes "distinct (map m_id (xs @ m # ys))"
  shows "filter (\<lambda>x. m_id x \<noteq> m_id m) (xs @ m # ys) = xs @ ys"
proof -
  have "\<forall>x\<in>set xs. m_id x \<noteq> m_id m" "\<forall>x\<in>set ys. m_id x \<noteq> m_id m"
    using assms by (auto simp: image_iff)
  then show ?thesis by simp
qed

text \<open>
  C10. A score update sets both scores and the completed flag on the matches of the
  active tournament whose identifier is the target, and leaves every other match, every
  other field of that tournament and every other tournament as they were. A confirmed
  deletion removes the matches with the target identifier from the active tournament (one
  match when identifiers are distinct) and changes nothing else; a declined one changes
  nothing. Neither operation produces a match with exactly one score set.
\<close>

theorem score_update_and_deletion_frame:
  assumes "i < length prev" and "t = prev ! i"
    and "u = handleUpdateScore a mid s1 s2 prev ! i"
    and "d = handleDeleteMatch True a mid prev ! i"
  shows "length (handleUpdateScore a mid s1 s2 prev) = length prev
       \<and> same_header t u
       \<and> (Some (t_id t) \<noteq> a \<longrightarrow> u = t)
       \<and> (Some (t_id t) = a \<longrightarrow>
            length (matches u) = length (matches t) \<and>
            (\<forall>j < length (matches t).
               matches u ! j =
                 (if m_id (matches t ! j) = mid
                  then (matches t ! j)\<lparr>score1 := Some s1, score2 := Some s2, completed := True\<rparr>
                  else matches t ! j)))
       \<and> ((\<forall>m \<in> set (matches t). \<not> half_scored m) \<longrightarrow> (\<forall>m \<in> set (matches u). \<not> half_scored m))
       \<and> length (handleDeleteMatch True a mid prev) = length prev
       \<and> handleDeleteMatch False a mid prev = prev
       \<and> same_header t d
       \<and> (Some (t_id t) \<noteq> a \<longrightarrow> d = t)
       \<and> (Some (t_id t) = a \<longrightarrow>
            matches d = filter (\<lambda>m. m_id m \<noteq> mid) (matches t) \<and>
            (mid \<notin> m_id ` set (matches t) \<longrightarrow> matches d = matches t) \<and>
            (\<forall>xs m ys. matches t = xs @ m # ys \<and> m_id m = mid \<and> distinct (map m_id (matches t))
                 \<longrightarrow> matches d = xs @ ys))
       \<and> ((\<forall>m \<in> set (matches t). \<not> half_scored m) \<longrightarrow> (\<forall>m \<in> set (matches d). \<not> half_scored m))"
proof -
  have u: "u = (if Some (t_id t) = a then t\<lparr>matches := map (set_score mid s1 s2) (matches t)\<rparr> else t)"
    using assms by (simp add: handleUpdateScore_def)
  have d: "d = (if Some (t_id t) = a then t\<lparr>matches := filter (\<lambda>m. m_id m \<noteq> mid) (matches t)\<rparr> else t)"
    using assms by (simp add: handleDeleteMatch_def)
  have 1: "length (handleUpdateScore a mid s1 s2 prev) = length prev"
    by (simp add: handleUpdateScore_def)
  have 2: "same_header t u" by (simp add: u same_header_def)
  have 3: "Some (t_id t) \<noteq> a \<longrightarrow> u = t" by (simp add: u)
  have 4: "Some (t_id t) = a \<longrightarrow>
            length (matches u) = length (matches t) \<and>
            (\<forall>j < length (matches t).
               matches u ! j =
                 (if m_id (matches t ! j) = mid
                  then (matches t ! j)\<lparr>score1 := Some s1, score2 := Some s2, completed := True\<rparr>
                  else matches t ! j))"
    by (simp add: u set_score_def)
  have 5: "(\<forall>m \<in> set (matches t). \<not> half_scored m) \<longrightarrow> (\<forall>m \<in> set (matches u). \<not> half_scored m)"
    by (auto simp: u set_score_not_half)
  have 6: "length (handleDeleteMatch True a mid prev) = length prev"
    by (simp add: handleDeleteMatch_def)
  have 7: "handleDeleteMatch False a mid prev = prev"
    by (simp add: handleDeleteMatch_def)
  have 8: "same_header t d" by (simp add: d same_header_def)
  have 9: "Some (t_id t) \<noteq> a \<longrightarrow> d = t" by (simp add: d)
  have 10: "Some (t_id t) = a \<longrightarrow>
            matches d = filter (\<lambda>m. m_id m \<noteq> mid) (matches t) \<and>
            (mid \<notin> m_id ` set (matches t) \<longrightarrow> matches d = matches t) \<and>
            (\<forall>xs m ys. matches t = xs @ m # ys \<and> m_id m = mid \<and> distinct (map m_id (matches t))
                 \<longrightarrow> matches d = xs @ ys)"
  proof (intro impI conjI allI)
    assume a: "Some (t_id t) = a"
    show f: "matches d = filter (\<lambda>m. m_id m \<noteq> mid) (matches t)" using a by (simp add: d)
    { assume "mid \<notin> m_id ` set (matches t)"
      then have "\<forall>m\<in>set (matches t). m_id m \<noteq> mid" by auto
      then show "matches d = matches t" unfolding f by simp }
    fix xs m ys
    assume h: "matches t = xs @ m # ys \<and> m_id m = mid \<and> distinct (map m_id (matches t))"
    then have "distinct (map m_id (xs @ m # ys))" by metis
    from filter_remove_one[OF this] h show "matches d = xs @ ys" unfolding f by simp
  qed
  have 11: "(\<forall>m \<in> set (matches t). \<not> half_scored m) \<longrightarrow> (\<forall>m \<in> set (matches d). \<not> half_scored m)"
    by (auto simp: d)
  from 1 2 3 4 5 6 7 8 9 10 11 show ?thesis by blast
qed

theorem score_update_and_deletion_frame_witness:
  "same_header demo_tournament
     (handleUpdateScore (Some ''tourn_7'') ''1-2-3-4'' 11 5 [demo_tournament] ! 0)"
proof -
  have h: "(0::nat) < length [demo_tournament]" by simp
  have "same_header ([demo_tournament] ! 0)
     (handleUpdateScore (Some ''tourn_7'') ''1-2-3-4'' 11 5 [demo_tournament] ! 0)"
    by (rule score_update_and_deletion_frame [OF h refl refl refl, THEN conjunct2, THEN conjunct1])
  then show ?thesis by (simp only: nth_Cons_0)
qed

section \<open>The completed flag in reachable states\<close>

lemma generate_matches_fresh:
  "m \<in> set (generate_matches ps) \<Longrightarrow> score1 m = None \<and> score2 m = None \<and> \<not> completed m"
  by (auto simp: generate_matches_def new_match_def)

lemma generate_well_flagged: "m \<in> set (generate rnd ps) \<Longrightarrow> well_flagged m"
  using generate_matches_fresh by (simp add: set_generate well_flagged_def)

lemma set_score_well_flagged: "well_flagged m \<Longrightarrow> well_flagged (set_score mid a b m)"
  by (simp add: set_score_def well_flagged_def)

lemma update_all_well_flagged:
  "all_well_flagged ts \<Longrightarrow> all_well_flagged (handleUpdateScore a mid s1 s2 ts)"
  by (auto simp: all_well_flagged_def handleUpdateScore_def set_score_well_flagged split: if_splits)

lemma delete_all_well_flagged:
  "all_well_flagged ts \<Longrightarrow> all_well_flagged (handleDeleteMatch c a mid ts)"
  by (auto simp: all_well_flagged_def handleDeleteMatch_def split: if_splits)

lemma reachable_all_well_flagged: "reachable st \<Longrightarrow> all_well_flagged (tournaments st)"
proof (induction rule: reachable.induct)
  case r_init
  then show ?case by (simp add: all_well_flagged_def)
next
  case (r_create st now isoTime rnd ps n l t)
  then show ?case
    by (auto simp: handleCreateTournament_def all_well_flagged_def Let_def generate_well_flagged)
next
  case (r_save st s1 s2 m)
  then show ?case
    by (auto simp: handleSave_def update_all_well_flagged split: option.splits)
next
  case (r_delete_match st c mid)
  then show ?case by (simp add: delete_all_well_flagged)
next
  case (r_delete_tournament st c tid)
  then show ?case by (auto simp: handleDeleteTournament_def all_well_flagged_def)
next
  case (r_load st tid)
  then show ?case by simp
next
  case (r_back st)
  then show ?case by simp
qed

text \<open>
  C6 (amended). In every state reached by creating tournaments, saving scores and deleting
  matches, a match is completed exactly if both of its scores are set (to integers). The
  sign of a score is not constrained.
\<close>

theorem completed_iff_both_scores_set:
  assumes "reachable st" and "t \<in> set (tournaments st)" and "m \<in> set (matches t)"
  shows "completed m \<longleftrightarrow> (\<exists>a b. score1 m = Some a \<and> score2 m = Some b)"
  using reachable_all_well_flagged [OF assms(1)] assms(2,3)
  by (auto simp: all_well_flagged_def well_flagged_def)

lemma reachable_demo_negative: "reachable demo_negative"
  unfolding demo_negative_def demo_state_def by (intro r_save r_create r_init)

theorem completed_iff_both_scores_set_witness:
  "reachable demo_negative \<and>
   (completed (hd (matches (hd (tournaments demo_negative)))) \<longleftrightarrow>
    (\<exists>a b. score1 (hd (matches (hd (tournaments demo_negative)))) = Some a \<and>
           score2 (hd (matches (hd (tournaments demo_negative)))) = Some b))"
proof -
  have t: "hd (tournaments demo_negative) \<in> set (tournaments demo_negative)"
    by code_simp
  have m: "hd (matches (hd (tournaments demo_negative))) \<in> set (matches (hd (tournaments demo_negative)))"
    by code_simp
  from completed_iff_both_scores_set [OF reachable_demo_negative t m] reachable_demo_negative
  show ?thesis by (rule_tac conjI)
qed

text \<open>
  The claim as stated also requires both scores to be at least zero. The state
  \<open>demo_negative\<close> is reachable and its match is completed with the score \<open>-1\<close>.
\<close>

theorem completed_nonneg_counterexample:
  "reachable demo_negative \<and>
   hd (tournaments demo_negative) \<in> set (tournaments demo_negative) \<and>
   hd (matches (hd (tournaments demo_negative))) \<in> set (matches (hd (tournaments demo_negative))) \<and>
   completed (hd (matches (hd (tournaments demo_negative)))) \<and>
   score1 (hd (matches (hd (tournaments demo_negative)))) = Some (- 1) \<and>
   \<not> scored_nonneg (hd (matches (hd (tournaments demo_negative))))"
proof -
  have "hd (tournaments demo_negative) \<in> set (tournaments demo_negative)"
    by code_simp
  moreover have "hd (matches (hd (tournaments demo_negative))) \<in> set (matches (hd (tournaments demo_negative)))"
    by code_simp
  moreover have "completed (hd (matches (hd (tournaments demo_negative))))"
    by code_simp
  moreover have "score1 (hd (matches (hd (tournaments demo_negative)))) = Some (- 1)"
    by code_simp
  moreover have "\<not> scored_nonneg (hd (matches (hd (tournaments demo_negative))))"
    by code_simp
  ultimately show ?thesis using reachable_demo_negative by simp
qed

section \<open>Properties of the match generator\<close>

text \<open>
  C3. For a roster of \<open>N\<close> players with distinct identifiers, generation produces
  exactly \<open>N choose 4\<close> matches, none when \<open>N < 4\<close>; every match has four
  participants of the roster with distinct identifiers; and every set of four roster
  players is the participant set of exactly one generated match.
\<close>

theorem generator_count_and_coverage:
  assumes "distinct (map p_id ps)"
  shows "length (generate rnd ps) = length ps choose 4
       \<and> (length ps < 4 \<longrightarrow> generate rnd ps = [])
       \<and> (\<forall>m \<in> set (generate rnd ps).
             distinct (map p_id (participants m)) \<and> set (participants m) \<subseteq> set ps \<and>
             card (set (participants m)) = 4)
       \<and> (\<forall>S. S \<subseteq> set ps \<and> card S = 4 \<longrightarrow>
             length (filter (\<lambda>m. set (participants m) = S) (generate rnd ps)) = 1)"
proof -
  have 1: "length (generate rnd ps) = length ps choose 4" by (rule length_generate)
  have 2: "length ps < 4 \<longrightarrow> generate rnd ps = []"
  proof
    assume "length ps < 4"
    then have "length (generate rnd ps) = 0" unfolding 1 by simp
    then show "generate rnd ps = []" by simp
  qed
  have 3: "\<forall>m \<in> set (generate rnd ps).
             distinct (map p_id (participants m)) \<and> set (participants m) \<subseteq> set ps \<and>
             card (set (participants m)) = 4"
    unfolding set_generate using generate_matches_participants[OF assms] by blast
  have 4: "\<forall>S. S \<subseteq> set ps \<and> card S = 4 \<longrightarrow>
             length (filter (\<lambda>m. set (participants m) = S) (generate rnd ps)) = 1"
  proof (intro allI impI)
    fix S assume S: "S \<subseteq> set ps \<and> card S = 4"
    have "length (filter (\<lambda>m. set (participants m) = S) (generate rnd ps)) =
          length (filter (\<lambda>m. set (participants m) = S) (generate_matches ps))"
      by (rule length_filter_mset) (rule mset_generate)
    also have "\<dots> = 1" using cover_once_generate_matches[OF assms] S by blast
    finally show "length (filter (\<lambda>m. set (participants m) = S) (generate rnd ps)) = 1" .
  qed
  from 1 2 3 4 show ?thesis by blast
qed

theorem generator_count_and_coverage_witness:
  "distinct (map p_id demo_five) \<and> length (generate (\<lambda>i. i) demo_five) = 5"
proof -
  have d: "distinct (map p_id demo_five)" by code_simp
  have c: "length demo_five choose 4 = 5" by code_simp
  from generator_count_and_coverage [OF d, of "\<lambda>i. i", THEN conjunct1] c d
  show ?thesis by simp
qed

text \<open>
  C7. For roster indices \<open>i < j < k < l\<close> (identifiers distinct) the generator produces a
  match with team1 = (player \<open>i\<close>, player \<open>j\<close>) and team2 = (player \<open>k\<close>, player \<open>l\<close>),
  and every generated match on these four players has exactly this split; every generated
  match arises from such a quadruple and starts with both scores null and completed false.
\<close>

theorem generator_fixed_split:
  assumes d: "distinct (map p_id ps)"
    and lt: "i < j" "j < k" "k < l" "l < length ps"
  shows "(\<exists>m \<in> set (generate rnd ps).
            team1 m = \<lparr>player1 = ps ! i, player2 = ps ! j\<rparr> \<and>
            team2 m = \<lparr>player1 = ps ! k, player2 = ps ! l\<rparr>)
       \<and> (\<forall>m \<in> set (generate rnd ps).
            set (participants m) = {ps ! i, ps ! j, ps ! k, ps ! l} \<longrightarrow>
            team1 m = \<lparr>player1 = ps ! i, player2 = ps ! j\<rparr> \<and>
            team2 m = \<lparr>player1 = ps ! k, player2 = ps ! l\<rparr>)
       \<and> (\<forall>m \<in> set (generate rnd ps).
            \<exists>a b c e. a < b \<and> b < c \<and> c < e \<and> e < length ps \<and>
              team1 m = \<lparr>player1 = ps ! a, player2 = ps ! b\<rparr> \<and>
              team2 m = \<lparr>player1 = ps ! c, player2 = ps ! e\<rparr>)
       \<and> (\<forall>m \<in> set (generate rnd ps). score1 m = None \<and> score2 m = None \<and> \<not> completed m)"
proof -
  let ?m0 = "new_match (ps ! i) (ps ! j) (ps ! k) (ps ! l)"
  have "?m0 \<in> set (generate rnd ps)"
    unfolding set_generate in_generate_matches using lt by blast
  moreover have "team1 ?m0 = \<lparr>player1 = ps ! i, player2 = ps ! j\<rparr> \<and>
            team2 ?m0 = \<lparr>player1 = ps ! k, player2 = ps ! l\<rparr>"
    by (simp add: new_match_def)
  ultimately have 1: "\<exists>m \<in> set (generate rnd ps).
            team1 m = \<lparr>player1 = ps ! i, player2 = ps ! j\<rparr> \<and>
            team2 m = \<lparr>player1 = ps ! k, player2 = ps ! l\<rparr>" by blast
  have 2: "\<forall>m \<in> set (generate rnd ps).
            set (participants m) = {ps ! i, ps ! j, ps ! k, ps ! l} \<longrightarrow>
            team1 m = \<lparr>player1 = ps ! i, player2 = ps ! j\<rparr> \<and>
            team2 m = \<lparr>player1 = ps ! k, player2 = ps ! l\<rparr>"
  proof (intro ballI impI)
    fix m assume m: "m \<in> set (generate rnd ps)"
      and e: "set (participants m) = {ps ! i, ps ! j, ps ! k, ps ! l}"
    from m obtain a b c e' where lt': "a < b" "b < c" "c < e'" "e' < length ps"
      and mm: "m = new_match (ps ! a) (ps ! b) (ps ! c) (ps ! e')"
      unfolding set_generate in_generate_matches by blast
    from e have "{ps ! a, ps ! b, ps ! c, ps ! e'} = {ps ! i, ps ! j, ps ! k, ps ! l}"
      unfolding mm participants_new_match by simp
    from roster_image_inj[OF d lt' lt this]
    show "team1 m = \<lparr>player1 = ps ! i, player2 = ps ! j\<rparr> \<and>
            team2 m = \<lparr>player1 = ps ! k, player2 = ps ! l\<rparr>"
      unfolding mm by (simp add: new_match_def)
  qed
  have 3: "\<forall>m \<in> set (generate rnd ps).
            \<exists>a b c e. a < b \<and> b < c \<and> c < e \<and> e < length ps \<and>
              team1 m = \<lparr>player1 = ps ! a, player2 = ps ! b\<rparr> \<and>
              team2 m = \<lparr>player1 = ps ! c, player2 = ps ! e\<rparr>"
  proof
    fix m assume m: "m \<in> set (generate rnd ps)"
    then obtain a b c e where lt': "a < b \<and> b < c \<and> c < e \<and> e < length ps"
      and mm: "m = new_match (ps ! a) (ps ! b) (ps ! c) (ps ! e)"
      unfolding set_generate in_generate_matches by blast
    have "team1 m = \<lparr>player1 = ps ! a, player2 = ps ! b\<rparr> \<and>
              team2 m = \<lparr>player1 = ps ! c, player2 = ps ! e\<rparr>"
      unfolding mm by (simp add: new_match_def)
    with lt' show "\<exists>a b c e. a < b \<and> b < c \<and> c < e \<and> e < length ps \<and>
              team1 m = \<lparr>player1 = ps ! a, player2 = ps ! b\<rparr> \<and>
              team2 m = \<lparr>player1 = ps ! c, player2 = ps ! e\<rparr>" by blast
  qed
  have 4: "\<forall>m \<in> set (generate rnd ps). score1 m = None \<and> score2 m = None \<and> \<not> completed m"
    unfolding set_generate using generate_matches_fresh by blast
  from 1 2 3 4 show ?thesis by blast
qed

theorem generator_fixed_split_witness:
  "distinct (map p_id demo_five) \<and>
   (\<exists>m \<in> set (generate (\<lambda>i. i) demo_five).
      team1 m = \<lparr>player1 = demo_five ! 0, player2 = demo_five ! 2\<rparr> \<and>
      team2 m = \<lparr>player1 = demo_five ! 3, player2 = demo_five ! 4\<rparr>)"
proof -
  have d: "distinct (map p_id demo_five)" by code_simp
  have l: "(4::nat) < length demo_five" by code_simp
  have "(0::nat) < 2" "(2::nat) < 3" "(3::nat) < 4" by simp_all
  from generator_fixed_split [OF d this l, of "\<lambda>i. i", THEN conjunct1] d
  show ?thesis by (rule_tac conjI)
qed

lemma m_id_new_match: "m_id (new_match a b c d) = match_id a b c d"
  by (simp add: new_match_def)

lemma distinct_ids_generate_matches:
  assumes d: "distinct (map p_id ps)"
  shows "distinct (map m_id (generate_matches ps))"
proof -
  let ?f = "\<lambda>(i, j, k, l). new_match (ps ! i) (ps ! j) (ps ! k) (ps ! l)"
  let ?qs = "quadruples (length ps)"
  have inj: "inj_on (\<lambda>q. m_id (?f q)) (set ?qs)"
  proof (rule inj_onI)
    fix x y assume x: "x \<in> set ?qs" and y: "y \<in> set ?qs" and e: "m_id (?f x) = m_id (?f y)"
    obtain i j k l where xq: "x = (i, j, k, l)" by (cases x) auto
    obtain i' j' k' l' where yq: "y = (i', j', k', l')" by (cases y) auto
    from x xq have a: "i < j" "j < k" "k < l" "l < length ps" by (simp_all add: in_quadruples)
    from y yq have b: "i' < j'" "j' < k'" "k' < l'" "l' < length ps" by (simp_all add: in_quadruples)
    from e have "match_id (ps ! i) (ps ! j) (ps ! k) (ps ! l) = match_id (ps ! i') (ps ! j') (ps ! k') (ps ! l')"
      unfolding xq yq by (simp add: m_id_new_match)
    from match_id_inj[OF this]
    have ids: "p_id (ps ! i) = p_id (ps ! i')" "p_id (ps ! j) = p_id (ps ! j')"
      "p_id (ps ! k) = p_id (ps ! k')" "p_id (ps ! l) = p_id (ps ! l')" by simp_all
    have "i = i'" using roster_index_inj[OF d _ _ ids(1)] a b by simp
    moreover have "j = j'" using roster_index_inj[OF d _ _ ids(2)] a b by simp
    moreover have "k = k'" using roster_index_inj[OF d _ _ ids(3)] a b by simp
    moreover have "l = l'" using roster_index_inj[OF d _ _ ids(4)] a b by simp
    ultimately show "x = y" unfolding xq yq by simp
  qed
  have "map m_id (generate_matches ps) = map (\<lambda>q. m_id (?f q)) ?qs"
    by (simp add: generate_matches_def)
  then show ?thesis using inj distinct_quadruples by (simp add: distinct_map)
qed

lemma mset_ids_generate: "mset (map m_id (generate rnd ps)) = mset (map m_id (generate_matches ps))"
  by (simp add: mset_generate)

lemma m_id_generate_matches:
  assumes "m \<in> set (generate_matches ps)"
  shows "m_id m =
           show_int (p_id (player1 (team1 m))) @ ''-'' @ show_int (p_id (player2 (team1 m))) @ ''-'' @
           show_int (p_id (player1 (team2 m))) @ ''-'' @ show_int (p_id (player2 (team2 m)))"
  using assms unfolding in_generate_matches by (auto simp: new_match_def match_id_def)

text \<open>
  C8. The set of match identifiers generated from a roster does not depend on the random
  choices of the shuffle; each identifier is the four participant identifiers, in
  generation order, joined by \<open>-\<close>; and for a roster with distinct player identifiers
  the match identifiers are pairwise distinct.
\<close>

theorem match_identifiers_reproducible:
  "set (map m_id (generate rnd ps)) = set (map m_id (generate rnd' ps))
   \<and> (\<forall>m \<in> set (generate rnd ps).
         m_id m =
           show_int (p_id (player1 (team1 m))) @ ''-'' @ show_int (p_id (player2 (team1 m))) @ ''-'' @
           show_int (p_id (player1 (team2 m))) @ ''-'' @ show_int (p_id (player2 (team2 m))))
   \<and> (distinct (map p_id ps) \<longrightarrow> distinct (map m_id (generate rnd ps)))"
proof -
  have 1: "set (map m_id (generate rnd ps)) = set (map m_id (generate rnd' ps))"
    by (simp add: set_generate)
  have 2: "\<forall>m \<in> set (generate rnd ps).
         m_id m =
           show_int (p_id (player1 (team1 m))) @ ''-'' @ show_int (p_id (player2 (team1 m))) @ ''-'' @
           show_int (p_id (player1 (team2 m))) @ ''-'' @ show_int (p_id (player2 (team2 m)))"
    unfolding set_generate using m_id_generate_matches by blast
  have 3: "distinct (map p_id ps) \<longrightarrow> distinct (map m_id (generate rnd ps))"
  proof
    assume "distinct (map p_id ps)"
    then have "distinct (map m_id (generate_matches ps))" by (rule distinct_ids_generate_matches)
    then show "distinct (map m_id (generate rnd ps))"
      using mset_eq_imp_distinct_iff[OF mset_ids_generate] by blast
  qed
  from 1 2 3 show ?thesis by blast
qed

theorem match_identifiers_reproducible_witness:
  "distinct (map p_id demo_five) \<and> distinct (map m_id (generate (\<lambda>i. i) demo_five))"
proof -
  have d: "distinct (map p_id demo_five)" by code_simp
  from match_identifiers_reproducible [of "\<lambda>i. i" demo_five "\<lambda>i. 0", THEN conjunct2, THEN conjunct2] d
  show ?thesis by blast
qed

section \<open>Properties of the standings\<close>

text \<open>
  C5 (amended). When the aggregator processes a completed match whose two scores are equal
  (its four participants being distinct roster players), each participant's entry gets
  matches-played plus one and the scores added to points-for and points-against,
  provided these three sums are integers of magnitude at most \<open>2 ^ 53\<close>, where the
  addition of numbers is exact; no entry's wins or losses change, and the entries of all
  other players stay as they are.
\<close>

theorem tie_policy:
  assumes "completed m" and "score1 m = score2 m"
    and "distinct (map p_id (participants m))" and "set (participants m) \<subseteq> set ps"
  shows "(\<forall>p \<in> set (participants m).
           \<exists>e. map_of (final_stats ps ms) (p_id p) = Some e \<and>
               (safe_integer (matchesPlayed e + 1) \<and>
                safe_integer (pointsFor e + score_or_zero (score1 m)) \<and>
                safe_integer (pointsAgainst e + score_or_zero (score2 m)) \<longrightarrow>
                map_of (final_stats ps (ms @ [m])) (p_id p) =
                  Some (e\<lparr>matchesPlayed := matchesPlayed e + 1,
                          pointsFor := pointsFor e + score_or_zero (score1 m),
                          pointsAgainst := pointsAgainst e + score_or_zero (score2 m)\<rparr>)))
       \<and> (\<forall>k e e'. map_of (final_stats ps ms) k = Some e \<and>
                   map_of (final_stats ps (ms @ [m])) k = Some e' \<longrightarrow>
                   wins e' = wins e \<and> losses e' = losses e)
       \<and> (\<forall>k. k \<notin> p_id ` set (participants m) \<longrightarrow>
              map_of (final_stats ps (ms @ [m])) k = map_of (final_stats ps ms) k)"
proof -
  let ?st = "final_stats ps ms"
  let ?s1 = "score_or_zero (score1 m)" and ?s2 = "score_or_zero (score2 m)"
  have tie: "?s1 = ?s2" using assms(2) by simp
  have pres: "map_of ?st (p_id p) \<noteq> None" if "p \<in> set (participants m)" for p
    using present_final_stats[of p ps ms] assms(4) that by auto
  have step: "map_of (final_stats ps (ms @ [m])) k =
           (if k \<in> p_id ` set (participants m)
            then map_option (\<lambda>e. add_points ?s1 ?s2 (played e)) (map_of ?st k)
            else map_of ?st k)" for k
    unfolding final_stats_snoc[OF assms(1)]
    by (rule apply_match_tie[OF tie assms(3) pres])
  have 1: "\<forall>p \<in> set (participants m).
           \<exists>e. map_of ?st (p_id p) = Some e \<and>
               (safe_integer (matchesPlayed e + 1) \<and> safe_integer (pointsFor e + ?s1) \<and>
                safe_integer (pointsAgainst e + ?s2) \<longrightarrow>
                map_of (final_stats ps (ms @ [m])) (p_id p) =
                  Some (e\<lparr>matchesPlayed := matchesPlayed e + 1,
                          pointsFor := pointsFor e + ?s1,
                          pointsAgainst := pointsAgainst e + ?s2\<rparr>))"
  proof
    fix p assume p: "p \<in> set (participants m)"
    from pres[OF p] obtain e where e: "map_of ?st (p_id p) = Some e" by blast
    have "p_id p \<in> p_id ` set (participants m)" using p by (rule imageI)
    then have new: "map_of (final_stats ps (ms @ [m])) (p_id p) = Some (add_points ?s1 ?s2 (played e))"
      unfolding step using e by simp
    have "map_of (final_stats ps (ms @ [m])) (p_id p) =
            Some (e\<lparr>matchesPlayed := matchesPlayed e + 1, pointsFor := pointsFor e + ?s1,
                    pointsAgainst := pointsAgainst e + ?s2\<rparr>)"
      if "safe_integer (matchesPlayed e + 1) \<and> safe_integer (pointsFor e + ?s1) \<and>
          safe_integer (pointsAgainst e + ?s2)"
    proof -
      have "js_add (matchesPlayed e) 1 = matchesPlayed e + 1"
           "js_add (pointsFor e) ?s1 = pointsFor e + ?s1"
           "js_add (pointsAgainst e) ?s2 = pointsAgainst e + ?s2"
        using that by (simp_all add: js_add_safe)
      then have "add_points ?s1 ?s2 (played e) =
          e\<lparr>matchesPlayed := matchesPlayed e + 1, pointsFor := pointsFor e + ?s1,
            pointsAgainst := pointsAgainst e + ?s2\<rparr>"
        by (simp add: add_points_def played_def)
      then show ?thesis using new by simp
    qed
    then show "\<exists>e. map_of ?st (p_id p) = Some e \<and>
               (safe_integer (matchesPlayed e + 1) \<and> safe_integer (pointsFor e + ?s1) \<and>
                safe_integer (pointsAgainst e + ?s2) \<longrightarrow>
                map_of (final_stats ps (ms @ [m])) (p_id p) =
                  Some (e\<lparr>matchesPlayed := matchesPlayed e + 1,
                          pointsFor := pointsFor e + ?s1,
                          pointsAgainst := pointsAgainst e + ?s2\<rparr>))"
      using e by blast
  qed
  have 2: "\<forall>k e e'. map_of ?st k = Some e \<and>
                   map_of (final_stats ps (ms @ [m])) k = Some e' \<longrightarrow>
                   wins e' = wins e \<and> losses e' = losses e"
    unfolding step by (auto simp: add_points_def played_def split: if_splits)
  have 3: "\<forall>k. k \<notin> p_id ` set (participants m) \<longrightarrow>
              map_of (final_stats ps (ms @ [m])) k = map_of ?st k"
    unfolding step by simp
  from 1 2 3 show ?thesis by blast
qed

theorem tie_policy_witness:
  "completed demo_tie \<and> score1 demo_tie = score2 demo_tie \<and>
   map_of (final_stats demo_roster ([] @ [demo_tie])) 1 =
     Some \<lparr>playerId = 1, playerName = ''An'', wins = 0, losses = 0, pointsFor = 7,
           pointsAgainst = 7, pointDifferential = 0, matchesPlayed = 1\<rparr>"
proof -
  have c: "completed demo_tie" by code_simp
  have s: "score1 demo_tie = score2 demo_tie" by code_simp
  have d: "distinct (map p_id (participants demo_tie))" by code_simp
  have r: "set (participants demo_tie) \<subseteq> set demo_roster" by code_simp
  have p: "\<lparr>p_id = 1, p_name = ''An''\<rparr> \<in> set (participants demo_tie)" by code_simp
  have e0: "map_of (final_stats demo_roster []) 1 =
      Some \<lparr>playerId = 1, playerName = ''An'', wins = 0, losses = 0, pointsFor = 0,
           pointsAgainst = 0, pointDifferential = 0, matchesPlayed = 0\<rparr>" by code_simp
  have z: "score_or_zero (score1 demo_tie) = 7" "score_or_zero (score2 demo_tie) = 7" by code_simp+
  have f: "safe_integer (0 + 1)" "safe_integer (0 + 7)" by code_simp+
  from tie_policy [OF c s d r, of "[]", THEN conjunct1, rule_format, OF p]
  obtain e where "map_of (final_stats demo_roster []) (p_id \<lparr>p_id = 1, p_name = ''An''\<rparr>) = Some e"
    and "safe_integer (matchesPlayed e + 1) \<and>
         safe_integer (pointsFor e + score_or_zero (score1 demo_tie)) \<and>
         safe_integer (pointsAgainst e + score_or_zero (score2 demo_tie)) \<longrightarrow>
         map_of (final_stats demo_roster ([] @ [demo_tie])) (p_id \<lparr>p_id = 1, p_name = ''An''\<rparr>) =
         Some (e\<lparr>matchesPlayed := matchesPlayed e + 1,
                 pointsFor := pointsFor e + score_or_zero (score1 demo_tie),
                 pointsAgainst := pointsAgainst e + score_or_zero (score2 demo_tie)\<rparr>)"
    by blast
  then have "map_of (final_stats demo_roster ([] @ [demo_tie])) 1 =
     Some \<lparr>playerId = 1, playerName = ''An'', wins = 0, losses = 0, pointsFor = 7,
           pointsAgainst = 7, pointDifferential = 0, matchesPlayed = 1\<rparr>"
    using e0 z f by auto
  with c s show ?thesis by blast
qed

text \<open>
  Beyond \<open>2 ^ 53\<close> the sum is rounded: after a tie saved as \<open>2 ^ 53\<close> : \<open>2 ^ 53\<close>, a tie
  saved as 1 : 1 leaves the points-for and points-against of a participant at \<open>2 ^ 53\<close>.
\<close>

theorem tie_policy_rounding_counterexample:
  "completed demo_tie_one \<and> score1 demo_tie_one = score2 demo_tie_one \<and>
   score_or_zero (score1 demo_tie_one) = 1 \<and>
   distinct (map p_id (participants demo_tie_one)) \<and>
   set (participants demo_tie_one) \<subseteq> set demo_roster \<and>
   map_option pointsFor (map_of (final_stats demo_roster [demo_tie_big]) 1) =
     Some 9007199254740992 \<and>
   map_option pointsFor (map_of (final_stats demo_roster ([demo_tie_big] @ [demo_tie_one])) 1) =
     Some 9007199254740992 \<and>
   map_option pointsAgainst (map_of (final_stats demo_roster ([demo_tie_big] @ [demo_tie_one])) 1) =
     Some 9007199254740992 \<and>
   map_option matchesPlayed (map_of (final_stats demo_roster ([demo_tie_big] @ [demo_tie_one])) 1) =
     Some 2"
  by code_simp




section \<open>Properties of the share codec\<close>

text \<open>
  C9. For every byte array, decoding the URL-safe base64 string of the array returns the
  array. The string contains no \<open>+\<close>, \<open>/\<close> or \<open>=\<close>; the decoder's replacements and
  re-padding rebuild exactly the padded standard base64 text, whose length is a multiple
  of 4, before the inverse transform.
\<close>

theorem base64url_roundtrip:
  "base64UrlToUint8Array (uint8ArrayToBase64Url bytes) = Some bytes
   \<and> CHR ''+'' \<notin> set (uint8ArrayToBase64Url bytes)
   \<and> CHR ''/'' \<notin> set (uint8ArrayToBase64Url bytes)
   \<and> CHR ''='' \<notin> set (uint8ArrayToBase64Url bytes)
   \<and> pad_to_four (replace_char CHR ''_'' CHR ''/'' (replace_char CHR ''-'' CHR ''+''
         (uint8ArrayToBase64Url bytes))) = btoa (map (\<lambda>b. char_of (unat b)) bytes)
   \<and> length (btoa (map (\<lambda>b. char_of (unat b)) bytes)) mod 4 = 0"
proof -
  let ?bs = "map unat bytes"
  let ?ss = "enc_sextets ?bs"
  let ?url = "\<lambda>n. (\<lambda>c. if c = CHR ''/'' then CHR ''_'' else c)
               ((\<lambda>c. if c = CHR ''+'' then CHR ''-'' else c) (b64_char n))"
  have lt: "\<forall>s \<in> set ?ss. s < 64" using enc_sextets_bound[OF unat_bytes_bound] by blast
  have 1: "base64UrlToUint8Array (uint8ArrayToBase64Url bytes) = Some bytes"
    by (rule decode_encode_bytes)
  have safe: "c \<noteq> CHR ''+'' \<and> c \<noteq> CHR ''/'' \<and> c \<noteq> CHR ''=''"
    if "c \<in> set (uint8ArrayToBase64Url bytes)" for c
  proof -
    from that obtain n where n: "n \<in> set ?ss" and c: "c = ?url n"
      unfolding url_token_chars by auto
    from n lt have "n < 64" by blast
    then have "c \<noteq> CHR ''=''" unfolding c by (rule url_char_not_equals)
    moreover have "c \<noteq> CHR ''+'' \<and> c \<noteq> CHR ''/''" unfolding c by (rule url_char_safe)
    ultimately show ?thesis by blast
  qed
  have 2: "CHR ''+'' \<notin> set (uint8ArrayToBase64Url bytes)" using safe by blast
  have 3: "CHR ''/'' \<notin> set (uint8ArrayToBase64Url bytes)" using safe by blast
  have 4: "CHR ''='' \<notin> set (uint8ArrayToBase64Url bytes)" using safe by blast
  have 5: "pad_to_four (replace_char CHR ''_'' CHR ''/'' (replace_char CHR ''-'' CHR ''+''
         (uint8ArrayToBase64Url bytes))) = btoa (map (\<lambda>b. char_of (unat b)) bytes)"
    unfolding repad_token btoa_binary ..
  have 6: "length (btoa (map (\<lambda>b. char_of (unat b)) bytes)) mod 4 = 0"
    unfolding btoa_binary btoa_groups_split
    using enc_lengths[of ?bs, THEN conjunct1] by simp
  from 1 2 3 4 5 6 show ?thesis by blast
qed

text \<open>
  C1 (amended). Let the compression primitive be lossless on the serialized text and let
  parsing invert serialization on the compact data. For every tournament whose player
  identifiers are distinct, whose matches refer to roster players and whose completed
  flags agree with the scores, decoding the token of the tournament succeeds and yields
  the same name and creation timestamp, the same player names in roster order with the
  positions as identifiers, and for every match the same team members by name and by
  roster position, the same scores and the same completed flag. The location and the
  time come back as they are when they are non-empty strings; an empty or missing
  location or time comes back as \<open>undefined\<close>.
\<close>

theorem codec_roundtrip:
  assumes inflate_deflate:
      "inflate (deflate (stringify (shareableData t))) = Some (stringify (shareableData t))"
    and parse_stringify:
      "parse (stringify (shareableData t)) = Some (json_normal (shareableData t))"
    and ids: "distinct (map p_id (players t))"
    and refs: "\<forall>m \<in> set (matches t). set (participants m) \<subseteq> set (players t)"
    and flags: "\<forall>m \<in> set (matches t). well_flagged m"
  shows "\<exists>d. decode_token inflate parse now (share_token stringify deflate t) = Inr d
      \<and> dt_name d = JStr (t_name t) \<and> dt_createdAt d = JStr (createdAt t)
      \<and> dt_location d = or_undefined (location t) \<and> dt_time d = or_undefined (time t)
      \<and> map d_name (dt_players d) = map (\<lambda>p. JStr (p_name p)) (players t)
      \<and> map d_id (dt_players d) = [0..<length (players t)]
      \<and> length (dt_matches d) = length (matches t)
      \<and> (\<forall>j < length (matches t).
            map (map_option d_name) (dparticipants (dt_matches d ! j)) =
              map (\<lambda>p. Some (JStr (p_name p))) (participants (matches t ! j))
          \<and> map (map_option (\<lambda>x. players t ! d_id x)) (dparticipants (dt_matches d ! j)) =
              map Some (participants (matches t ! j))
          \<and> (\<forall>x. Some x \<in> set (dparticipants (dt_matches d ! j)) \<longrightarrow> x \<in> set (dt_players d))
          \<and> d_score1 (dt_matches d ! j) = score_json (score1 (matches t ! j))
          \<and> d_score2 (dt_matches d ! j) = score_json (score2 (matches t ! j))
          \<and> d_completed (dt_matches d ! j) = completed (matches t ! j))"
proof -
  let ?ps = "players t"
  let ?dps = "rebuild_players (map (\<lambda>p. JStr (p_name p)) ?ps)"
  let ?g = "\<lambda>m. the (rebuild_match ?dps (json_normal (compact_row ?ps m)))"
  from rebuild_tournament_roundtrip[OF ids refs, of now] obtain d where
    rb: "rebuild_tournament now (json_normal (shareableData t)) = Some d"
    and hd: "dt_name d = JStr (t_name t)" "dt_createdAt d = JStr (createdAt t)"
      "dt_location d = or_undefined (location t)" "dt_time d = or_undefined (time t)"
    and pl: "dt_players d = ?dps"
    and ms: "dt_matches d = map ?g (matches t)" by blast
  have dec: "decode_token inflate parse now (share_token stringify deflate t) = Inr d"
    unfolding decode_token_def share_token_def Let_def decode_encode_bytes option.case
      inflate_deflate parse_stringify rb ..
  have names: "map d_name (dt_players d) = map (\<lambda>p. JStr (p_name p)) ?ps"
    unfolding pl rebuild_players_names by (rule nth_equalityI) simp_all
  have idxs: "map d_id (dt_players d) = [0..<length ?ps]"
    unfolding pl rebuild_players_names by (rule nth_equalityI) simp_all
  have len: "length (dt_matches d) = length (matches t)" unfolding ms by simp
  have each: "map (map_option d_name) (dparticipants (dt_matches d ! j)) =
              map (\<lambda>p. Some (JStr (p_name p))) (participants (matches t ! j))
          \<and> map (map_option (\<lambda>x. players t ! d_id x)) (dparticipants (dt_matches d ! j)) =
              map Some (participants (matches t ! j))
          \<and> (\<forall>x. Some x \<in> set (dparticipants (dt_matches d ! j)) \<longrightarrow> x \<in> set (dt_players d))
          \<and> d_score1 (dt_matches d ! j) = score_json (score1 (matches t ! j))
          \<and> d_score2 (dt_matches d ! j) = score_json (score2 (matches t ! j))
          \<and> d_completed (dt_matches d ! j) = completed (matches t ! j)"
    if j: "j < length (matches t)" for j
  proof -
    let ?m = "matches t ! j"
    have mem: "?m \<in> set (matches t)" using j by simp
    then have r: "set (participants ?m) \<subseteq> set ?ps" using refs by blast
    from rebuild_match_roundtrip[OF ids r refl] obtain dm where
      dm: "rebuild_match ?dps (json_normal (compact_row ?ps ?m)) = Some dm"
      and p1: "map (map_option d_name) (dparticipants dm) =
               map (\<lambda>p. Some (JStr (p_name p))) (participants ?m)"
      and p2: "map (map_option (\<lambda>x. ?ps ! d_id x)) (dparticipants dm) = map Some (participants ?m)"
      and p3: "\<forall>x. Some x \<in> set (dparticipants dm) \<longrightarrow> x \<in> set ?dps"
      and p4: "d_score1 dm = score_json (score1 ?m)" "d_score2 dm = score_json (score2 ?m)"
      and p5: "d_completed dm = (score1 ?m \<noteq> None \<and> score2 ?m \<noteq> None)" by blast
    have e: "dt_matches d ! j = dm" unfolding ms using j dm by simp
    have "well_flagged ?m" using flags mem by blast
    then have p5': "d_completed dm = completed ?m" unfolding p5 well_flagged_def by simp
    show ?thesis unfolding e pl using p1 p2 p3 p4 p5' by blast
  qed
  from dec hd names idxs len each show ?thesis by blast
qed

theorem codec_roundtrip_witness:
  "case decode_token zlib_unstore json_parse 0 (share_token json_stringify zlib_store demo_tournament) of
     Inl e \<Rightarrow> False
   | Inr d \<Rightarrow> dt_name d = JStr ''Cup'' \<and> dt_location d = JStr ''Hanoi'' \<and>
             map d_name (dt_players d) = [JStr ''An'', JStr ''Binh'', JStr ''Chi'', JStr ''Dung'']"
proof -
  have ids: "distinct (map p_id (players demo_tournament))" by code_simp
  have refs: "\<forall>m \<in> set (matches demo_tournament). set (participants m) \<subseteq> set (players demo_tournament)"
    by code_simp
  have flags: "\<forall>m \<in> set (matches demo_tournament). well_flagged m" by code_simp
  have v: "t_name demo_tournament = ''Cup''" "or_undefined (location demo_tournament) = JStr ''Hanoi''"
    "map (\<lambda>p. JStr (p_name p)) (players demo_tournament) = [JStr ''An'', JStr ''Binh'', JStr ''Chi'', JStr ''Dung'']"
    by code_simp+
  from codec_roundtrip [where inflate = zlib_unstore and deflate = zlib_store and
      stringify = json_stringify and parse = json_parse and t = demo_tournament and now = 0,
      OF demo_inflate demo_parse ids refs flags]
  obtain d where
    "decode_token zlib_unstore json_parse 0 (share_token json_stringify zlib_store demo_tournament) = Inr d"
    and "dt_name d = JStr (t_name demo_tournament)"
    and "dt_location d = or_undefined (location demo_tournament)"
    and "map d_name (dt_players d) = map (\<lambda>p. JStr (p_name p)) (players demo_tournament)"
    by blast
  then show ?thesis using v by simp
qed

text \<open>
  The claim as stated returns the time as it is. The sample tournament was created with
  the time left empty, so its time is the empty string; the decoded tournament has no
  time (\<open>undefined\<close>).
\<close>

theorem codec_empty_time_counterexample:
  "time demo_tournament = Some [] \<and>
   (case decode_token zlib_unstore json_parse 0
           (share_token json_stringify zlib_store demo_tournament) of
      Inl e \<Rightarrow> False
    | Inr d \<Rightarrow> dt_time d = JUndefined)"
proof -
  have "time demo_tournament = Some []" by code_simp
  then show ?thesis unfolding demo_decoded by simp
qed




end
